theory Spec2Isabelle
  imports Main "HOL-Library.Word" "HOL-Library.Char_ord" "HOL-Library.List_Lexorder"
begin

section \<open>Digital gene expression counting: \<open>spacemake/bin/quant.py\<close>\<close>

text \<open>
  The development embeds the two classes of \<open>quant.py\<close> that decide how a bundle of
  alternative alignments is counted: \<open>DefaultCounter\<close> (alignment selection, gene
  selection, channel determination, deduplication by cell barcode and UMI) and \<open>DGE\<close>
  (the count store and its conversion into sparse matrices), together with the loop of
  \<open>main\<close> that connects them.

  Conventions of the embedding.
  \<^item> Python exceptions are values of \<open>py_error\<close>; a function that can raise returns
    \<open>py_error + 'a\<close> with \<open>Inl\<close> for the exception.
  \<^item> An alignment is the 5-tuple \<open>(chrom, strand, gn, gf, score)\<close> that
    \<open>bam_iter_bundles\<close> builds; \<open>gn\<close> and \<open>gf\<close> are the lists obtained from
    the comma-separated BAM tags.
  \<^item> Python's built-in \<open>hash\<close> is not code of the module, and on strings it depends
    on a seed chosen per process; it is a parameter \<open>h\<close> with values in the 64-bit range
    of \<open>Py_hash_t\<close>.
  \<^item> The cell barcode is a string. The UMI is the value of the BAM tag \<open>MI\<close> as
    \<open>get_tag\<close> returns it, a string for a text tag and an integer for an integer tag;
    the counter only hashes it, so its type is a parameter.
  \<^item> A Python \<open>set\<close> is a HOL set; a loop over a set whose iterations commute is
    written pointwise.
  \<^item> The strategy names given to the constructor (\<open>'priority'\<close>, \<open>'take_first'\<close>,
    \<open>'chrom'\<close>, \<open>'exon_wins'\<close>, ...) are looked up in dictionaries once, in
    \<open>__init__\<close>, where an unknown name raises; the counter keeps the outcome of the
    lookup, so the record holds one constructor per valid name.
\<close>

subsection \<open>Values and exceptions\<close>

datatype py_error = IndexError | KeyError | ValueError | TypeError

type_synonym py_hash = "64 word"

type_synonym alignment = "string \<times> string \<times> string list \<times> string list \<times> int"

text \<open>
  The first component returned by \<open>process_bam_bundle\<close> is \<open>None\<close>, a string (the
  only gene name, or the chromosome) or the list \<open>gn_new\<close> returned by
  \<open>select_gene_by_priority\<close>.
\<close>

datatype gene_val = GNone | GStr string | GList "string list"

text \<open>Python truth value of such a result, as tested by \<open>if gene:\<close>.\<close>

fun truthy :: "gene_val \<Rightarrow> bool" where
  "truthy GNone = False"
| "truthy (GStr s) = (s \<noteq> [])"
| "truthy (GList l) = (l \<noteq> [])"

text \<open>\<open>d.get(k, default)\<close> on a dictionary.\<close>

definition dict_get :: "('k \<rightharpoonup> 'v) \<Rightarrow> 'k \<Rightarrow> 'v \<Rightarrow> 'v" where
  "dict_get d k dflt = (case d k of None \<Rightarrow> dflt | Some v \<Rightarrow> v)"

subsection \<open>Module constants\<close>

definition default_channels :: "string list" where
  "default_channels =
     [''counts'', ''exonic_counts'', ''exonic_reads'', ''intronic_counts'', ''intronic_reads'']"

definition default_X_counts :: "string list" where
  "default_X_counts = [''exonic_counts'', ''intronic_counts'']"

definition default_alignment_priorities :: "string \<rightharpoonup> int" where
  "default_alignment_priorities = map_of
     [(''C'', 101), (''c'', 100), (''U'', 51), (''u'', 50), (''CU'', 51), (''cu'', 50),
      (''N'', 21), (''n'', 20), (''I'', 11), (''i'', 10), (''-'', 0)]"

definition default_gene_priorities :: "string \<rightharpoonup> int" where
  "default_gene_priorities = map_of
     [(''C'', 101), (''c'', 100), (''U'', 51), (''u'', 50), (''CU'', 51), (''cu'', 50),
      (''N'', 21), (''n'', 20), (''I'', 11), (''i'', 10), (''-'', 0)]"

definition default_exonic_tags :: "string list" where
  "default_exonic_tags = [''C'', ''U'', ''CU'', ''N'', ''c'', ''u'', ''cu'', ''n'']"

definition default_intronic_tags :: "string list" where
  "default_intronic_tags = [''I'', ''i'']"

datatype exon_intron_policy = Exon_wins | Intron_wins | Count_both

fun exon_intron_disambiguation_functions ::
  "exon_intron_policy \<Rightarrow> string set \<Rightarrow> string set" where
  "exon_intron_disambiguation_functions Exon_wins channels =
     channels - {''intronic_reads'', ''intronic_counts''}"
| "exon_intron_disambiguation_functions Intron_wins channels =
     channels - {''exonic_reads'', ''exonic_counts''}"
| "exon_intron_disambiguation_functions Count_both channels = channels"

subsection \<open>The counter\<close>

datatype alignment_selection = Aln_priority | Aln_take_first

datatype gene_selection = Gene_priority | Gene_chrom

text \<open>
  The fields of a \<open>DefaultCounter\<close> that the counting methods read or write.
  \<open>stats\<close> is a \<open>defaultdict(int)\<close>: a counter for every name, initially 0.
  \<open>uniq\<close> is the set of hash values of the (cell, UMI) pairs counted so far.
\<close>

record DefaultCounter =
  alignment_priorities :: "string \<rightharpoonup> int"
  gene_priorities :: "string \<rightharpoonup> int"
  exonic_set :: "string set"
  intronic_set :: "string set"
  select_alignment :: alignment_selection
  select_gene :: gene_selection
  count_X_channels :: "string set"
  exon_intron_disambiguation_func :: exon_intron_policy
  stats :: "string \<Rightarrow> nat"
  uniq :: "py_hash set"

text \<open>The constructor with the default arguments of \<open>__init__\<close>.\<close>

definition DefaultCounter_init ::
  "(string \<rightharpoonup> int) \<Rightarrow> (string \<rightharpoonup> int) \<Rightarrow> string list \<Rightarrow> string list \<Rightarrow> string list \<Rightarrow>
   exon_intron_policy \<Rightarrow> alignment_selection \<Rightarrow> gene_selection \<Rightarrow> py_hash set \<Rightarrow>
   (string \<Rightarrow> nat) \<Rightarrow> DefaultCounter" where
  "DefaultCounter_init aln_prio gene_prio exonic_tags intronic_tags X_counts policy
     aln_sel gene_sel uniq0 stats0 =
     \<lparr>alignment_priorities = aln_prio, gene_priorities = gene_prio,
      exonic_set = set exonic_tags, intronic_set = set intronic_tags,
      select_alignment = aln_sel, select_gene = gene_sel,
      count_X_channels = set X_counts, exon_intron_disambiguation_func = policy,
      stats = stats0, uniq = uniq0\<rparr>"

definition default_counter :: DefaultCounter where
  "default_counter =
     DefaultCounter_init default_alignment_priorities default_gene_priorities
       default_exonic_tags default_intronic_tags default_X_counts
       Exon_wins Aln_priority Gene_priority {} (\<lambda>_. 0)"

text \<open>\<open>self.stats[name] += 1\<close>\<close>

definition stats_incr :: "string \<Rightarrow> DefaultCounter \<Rightarrow> DefaultCounter" where
  "stats_incr name self = self\<lparr>stats := (stats self)(name := stats self name + 1)\<rparr>"

subsection \<open>Alignment selection\<close>

text \<open>\<open>select_first_alignment\<close>: \<open>bundle[0]\<close>, which raises on an empty bundle.\<close>

definition select_first_alignment :: "alignment list \<Rightarrow> py_error + alignment option" where
  "select_first_alignment bundle =
     (case bundle of [] \<Rightarrow> Inl IndexError | a # _ \<Rightarrow> Inr (Some a))"

text \<open>
  \<open>get_prio\<close>, the local function of \<open>select_alignment_by_priority\<close>: \<open>max\<close> of an
  empty list raises \<open>ValueError\<close>.
\<close>

definition get_prio :: "(string \<rightharpoonup> int) \<Rightarrow> string list \<Rightarrow> py_error + int" where
  "get_prio prio_tab gf =
     (let prios = map (\<lambda>f. dict_get prio_tab f 0) gf
      in if prios = [] then Inl ValueError else Inr (Max (set prios)))"

text \<open>
  The loop of \<open>select_alignment_by_priority\<close> over the bundle; the accumulator is
  \<open>(top_prio, n_top, kept)\<close>.
\<close>

fun select_alignment_loop ::
  "(string \<rightharpoonup> int) \<Rightarrow> alignment list \<Rightarrow> int \<times> nat \<times> alignment option \<Rightarrow>
   py_error + (int \<times> nat \<times> alignment option)" where
  "select_alignment_loop prio_tab [] acc = Inr acc"
| "select_alignment_loop prio_tab ((chrom, strand, gn, gf, score) # bundle) (top_prio, n_top, kept) =
     (case get_prio prio_tab gf of
        Inl e \<Rightarrow> Inl e
      | Inr p \<Rightarrow>
          if p > top_prio then
            select_alignment_loop prio_tab bundle (p, 1, Some (chrom, strand, gn, gf, score))
          else if p = top_prio then
            select_alignment_loop prio_tab bundle
              (top_prio, n_top + 1, Some (chrom, strand, gn, gf, score))
          else select_alignment_loop prio_tab bundle (top_prio, n_top, kept))"

definition select_alignment_by_priority ::
  "DefaultCounter \<Rightarrow> alignment list \<Rightarrow> py_error + alignment option" where
  "select_alignment_by_priority self bundle =
     (case select_alignment_loop (alignment_priorities self) bundle (0, 0, None) of
        Inl e \<Rightarrow> Inl e
      | Inr (top_prio, n_top, kept) \<Rightarrow> Inr (if n_top = 1 then kept else None))"

text \<open>\<open>self.select_alignment(bundle)\<close>: the strategy chosen at construction.\<close>

definition call_select_alignment ::
  "DefaultCounter \<Rightarrow> alignment list \<Rightarrow> py_error + alignment option" where
  "call_select_alignment self bundle =
     (case select_alignment self of
        Aln_priority \<Rightarrow> select_alignment_by_priority self bundle
      | Aln_take_first \<Rightarrow> select_first_alignment bundle)"

subsection \<open>Gene selection\<close>

definition select_chrom_as_gene :: "alignment \<Rightarrow> gene_val \<times> string list" where
  "select_chrom_as_gene a = (case a of (chrom, strand, gn, gf, score) \<Rightarrow> (GStr chrom, [''N'']))"

text \<open>
  The loop of \<open>select_gene_by_priority\<close> over \<open>zip(gn, gf)\<close>; the accumulator is
  \<open>(gene_prio, gene_gf, max_prio)\<close>, the two dictionaries being \<open>defaultdict(int)\<close>
  and \<open>defaultdict(list)\<close>.
\<close>

fun select_gene_loop ::
  "(string \<rightharpoonup> int) \<Rightarrow> (string \<times> string) list \<Rightarrow>
   (string \<Rightarrow> int) \<times> (string \<Rightarrow> string list) \<times> int \<Rightarrow>
   (string \<Rightarrow> int) \<times> (string \<Rightarrow> string list) \<times> int" where
  "select_gene_loop prio_tab [] acc = acc"
| "select_gene_loop prio_tab ((n, f) # rest) (gene_prio, gene_gf, max_prio) =
     (let p = dict_get prio_tab f 0
      in select_gene_loop prio_tab rest
           (gene_prio(n := max (gene_prio n) p), gene_gf(n := gene_gf n @ [f]), max max_prio p))"

text \<open>
  \<open>gn_new\<close> lists the elements of \<open>set(gn)\<close> of top priority, in the iteration order of
  the set; the branch taken and the value returned depend on that order only when the
  length is 1, where there is just one order. On success the method returns the list
  \<open>gn_new\<close> itself and the features collected for \<open>gn[0]\<close>; otherwise \<open>(None, None)\<close>.
\<close>

definition select_gene_by_priority ::
  "DefaultCounter \<Rightarrow> alignment \<Rightarrow> py_error + (gene_val \<times> string list)" where
  "select_gene_by_priority self a =
     (case a of (chrom, strand, gn, gf, score) \<Rightarrow>
        (case select_gene_loop (gene_priorities self) (zip gn gf) (\<lambda>_. 0, \<lambda>_. [], 0) of
           (gene_prio, gene_gf, max_prio) \<Rightarrow>
             (let gn_new = filter (\<lambda>n. gene_prio n = max_prio) (remdups gn)
              in if length gn_new = 1 then
                   (case gn of [] \<Rightarrow> Inl IndexError
                    | n0 # _ \<Rightarrow> Inr (GList gn_new, gene_gf n0))
                 else Inr (GNone, []))))"

definition call_select_gene ::
  "DefaultCounter \<Rightarrow> alignment \<Rightarrow> py_error + (gene_val \<times> string list)" where
  "call_select_gene self a =
     (case select_gene self of
        Gene_priority \<Rightarrow> select_gene_by_priority self a
      | Gene_chrom \<Rightarrow> Inr (select_chrom_as_gene a))"

subsection \<open>Channel determination\<close>

text \<open>The loop of \<open>determine_channels\<close>; the accumulator is \<open>(channels, exon, intron)\<close>.\<close>

fun determine_channels_loop ::
  "DefaultCounter \<Rightarrow> bool \<Rightarrow> string list \<Rightarrow> string set \<times> bool \<times> bool \<Rightarrow>
   string set \<times> bool \<times> bool" where
  "determine_channels_loop self uniq_flag [] acc = acc"
| "determine_channels_loop self uniq_flag (f # gf) (channels, exon, intron) =
     (if f \<in> exonic_set self then
        determine_channels_loop self uniq_flag gf
          (if uniq_flag then insert ''exonic_counts'' (insert ''exonic_reads'' channels)
           else insert ''exonic_reads'' channels, True, intron)
      else if f \<in> intronic_set self then
        determine_channels_loop self uniq_flag gf
          (if uniq_flag then insert ''intronic_counts'' (insert ''intronic_reads'' channels)
           else insert ''intronic_reads'' channels, exon, True)
      else determine_channels_loop self uniq_flag gf (channels, exon, intron))"

text \<open>The channel set after the exon/intron policy, before the main channel is added.\<close>

definition post_policy_channels :: "DefaultCounter \<Rightarrow> string list \<Rightarrow> bool \<Rightarrow> string set" where
  "post_policy_channels self gf uniq_flag =
     (case determine_channels_loop self uniq_flag gf ({}, False, False) of
        (channels, exon, intron) \<Rightarrow>
          if exon \<and> intron then
            exon_intron_disambiguation_functions (exon_intron_disambiguation_func self) channels
          else channels)"

definition determine_channels :: "DefaultCounter \<Rightarrow> string list \<Rightarrow> bool \<Rightarrow> string set" where
  "determine_channels self gf uniq_flag =
     (let channels = post_policy_channels self gf uniq_flag
      in if channels \<inter> count_X_channels self \<noteq> {} then insert ''counts'' channels
         else channels)"

subsection \<open>Deduplication\<close>

text \<open>
  The uniqueness test of \<open>process_bam_bundle\<close>:
  \<^verbatim>\<open>key = hash((cell, umi)); uniq = not (key in self.uniq); if uniq: self.uniq.add(key)\<close>.
  It returns the flag and the updated set.
\<close>

definition observe ::
  "(string \<times> 'u \<Rightarrow> py_hash) \<Rightarrow> py_hash set \<Rightarrow> string \<Rightarrow> 'u \<Rightarrow> bool \<times> py_hash set" where
  "observe h seen cell umi =
     (let key = h (cell, umi); uniq_flag = (key \<notin> seen)
      in (uniq_flag, if uniq_flag then insert key seen else seen))"

text \<open>The flags obtained by presenting a sequence of pairs to one set.\<close>

fun observe_all ::
  "(string \<times> 'u \<Rightarrow> py_hash) \<Rightarrow> py_hash set \<Rightarrow> (string \<times> 'u) list \<Rightarrow> bool list" where
  "observe_all h seen [] = []"
| "observe_all h seen ((cell, umi) # ps) =
     fst (observe h seen cell umi) # observe_all h (snd (observe h seen cell umi)) ps"

subsection \<open>Processing one bundle\<close>

text \<open>
  \<open>str.islower()\<close> on ASCII text: some cased character occurs and no upper-case one.
  It only chooses which statistics counter is incremented.
\<close>

definition islower :: "string \<Rightarrow> bool" where
  "islower s =
     ((\<exists>c\<in>set s. CHR ''a'' \<le> c \<and> c \<le> CHR ''z'') \<and> (\<forall>c\<in>set s. \<not> (CHR ''A'' \<le> c \<and> c \<le> CHR ''Z'')))"

text \<open>
  First part of \<open>process_bam_bundle\<close>: a bundle of length 1 is taken as it is, any other
  bundle goes through the configured selection strategy. An alignment tuple is always
  true as a Python condition, so \<open>if selected:\<close> tests for \<open>None\<close>.
\<close>

definition alignment_stage ::
  "DefaultCounter \<Rightarrow> alignment list \<Rightarrow> py_error + (alignment option \<times> DefaultCounter)" where
  "alignment_stage self bundle =
     (if length bundle = 1 then
        Inr (Some (hd bundle), stats_incr ''N_aln_unique'' self)
      else
        (case call_select_alignment (stats_incr ''N_aln_multi'' self) bundle of
           Inl e \<Rightarrow> Inl e
         | Inr None \<Rightarrow>
             Inr (None, stats_incr ''N_aln_selection_failed'' (stats_incr ''N_aln_multi'' self))
         | Inr (Some a) \<Rightarrow>
             Inr (Some a, stats_incr ''N_aln_selected'' (stats_incr ''N_aln_multi'' self))))"

text \<open>
  Second part: the gene and its features. With a single gene name, \<open>gf = gf[0]\<close> turns
  \<open>gf\<close> into one feature string; what follows indexes and iterates over that string, that
  is over its characters, each a string of length 1. The result lists the items of \<open>gf\<close>
  as the rest of the method sees them.
\<close>

definition gene_stage ::
  "DefaultCounter \<Rightarrow> alignment \<Rightarrow> py_error + (gene_val \<times> string list \<times> DefaultCounter)" where
  "gene_stage self a =
     (case a of (chrom, strand, gn, gf, score) \<Rightarrow>
        (let self1 = stats_incr (''N_aln_'' @ strand) (stats_incr ''N_aln_countable'' self)
         in if length gn = 1 then
              (case gf of
                 [] \<Rightarrow> Inl IndexError
               | f0 # _ \<Rightarrow>
                   Inr (GStr (hd gn), map (\<lambda>c. [c]) f0, stats_incr ''N_gene_unique'' self1))
            else
              (case call_select_gene (stats_incr ''N_gene_multi'' self1) a of
                 Inl e \<Rightarrow> Inl e
               | Inr (gene, gf') \<Rightarrow>
                   Inr (gene, gf',
                        stats_incr (if truthy gene then ''N_gene_selected''
                                    else ''N_gene_selection_failed'')
                          (stats_incr ''N_gene_multi'' self1)))))"

text \<open>
  Third part, under \<open>if gene:\<close>: sense statistics, the uniqueness test, the channels
  and their statistics (one increment of \<open>N_channel_c\<close> for every channel \<open>c\<close> of
  the set).
\<close>

definition counting_stage ::
  "(string \<times> 'u \<Rightarrow> py_hash) \<Rightarrow> DefaultCounter \<Rightarrow> string \<Rightarrow> 'u \<Rightarrow> gene_val \<Rightarrow>
   string list \<Rightarrow> py_error + (string set \<times> DefaultCounter)" where
  "counting_stage h self cell umi gene gf =
     (if truthy gene then
        (case gf of
           [] \<Rightarrow> Inl IndexError
         | f0 # _ \<Rightarrow>
             (let self1 = stats_incr (if islower f0 then ''N_aln_antisense'' else ''N_aln_sense'')
                            (stats_incr ''N_aln_counted'' self);
                  r = observe h (uniq self1) cell umi;
                  self2 = self1\<lparr>uniq := snd r\<rparr>;
                  channels = determine_channels self2 gf (fst r);
                  self3 = self2\<lparr>stats := (\<lambda>k. stats self2 k +
                             (if \<exists>c\<in>channels. k = ''N_channel_'' @ c then 1 else 0))\<rparr>
              in Inr (channels,
                      if channels = {} then stats_incr ''N_channel_NONE'' self3 else self3)))
      else Inr ({}, self))"

definition process_bam_bundle ::
  "(string \<times> 'u \<Rightarrow> py_hash) \<Rightarrow> DefaultCounter \<Rightarrow> string \<Rightarrow> 'u \<Rightarrow> alignment list \<Rightarrow>
   py_error + ((gene_val \<times> string set) \<times> DefaultCounter)" where
  "process_bam_bundle h self cell umi bundle =
     (case alignment_stage self bundle of
        Inl e \<Rightarrow> Inl e
      | Inr (None, self1) \<Rightarrow> Inr ((GNone, {}), self1)
      | Inr (Some a, self1) \<Rightarrow>
          (case gene_stage self1 a of
             Inl e \<Rightarrow> Inl e
           | Inr (gene, gf, self2) \<Rightarrow>
               (case counting_stage h self2 cell umi gene gf of
                  Inl e \<Rightarrow> Inl e
                | Inr (channels, self3) \<Rightarrow> Inr ((gene, channels), self3))))"

subsection \<open>The count store\<close>

text \<open>
  \<open>counts\<close> is a dictionary from (gene, cell) to a dictionary from channel to count,
  both created on first access. The outer one is iterated by \<open>make_sparse_arrays\<close>, in
  insertion order, so it is an association list; the inner one is only indexed.
\<close>

type_synonym channel_dict = "string \<rightharpoonup> nat"

record DGE =
  channels :: "string list"
  counts :: "((string \<times> string) \<times> channel_dict) list"
  DGE_cells :: "string set"
  DGE_genes :: "string set"
  allowed_bcs :: "string set option"

text \<open>\<open>str.rstrip()\<close> with the white space characters of code point below 256.\<close>

definition py_isspace :: "char \<Rightarrow> bool" where
  "py_isspace c = ((of_char c :: nat) \<in> {9, 10, 11, 12, 13, 28, 29, 30, 31, 32, 133, 160})"

definition rstrip :: "string \<Rightarrow> string" where
  "rstrip s = rev (dropWhile py_isspace (rev s))"

text \<open>
  \<open>load_list(fname)\<close>: the argument is \<open>None\<close> for the empty file name, for which the
  method returns \<open>None\<close>, and otherwise the lines of the named file.
\<close>

definition load_list :: "string list option \<Rightarrow> string set option" where
  "load_list file =
     (case file of None \<Rightarrow> None | Some lines \<Rightarrow> Some (set (map rstrip lines)))"

definition DGE_init :: "string list \<Rightarrow> string list option \<Rightarrow> DGE" where
  "DGE_init chs cell_bc_allowlist =
     \<lparr>channels = chs, counts = [], DGE_cells = {}, DGE_genes = {},
      allowed_bcs = load_list cell_bc_allowlist\<rparr>"

text \<open>\<open>channel_dict[channel] += 1\<close> for every channel of the set.\<close>

definition incr_channels :: "string set \<Rightarrow> channel_dict \<Rightarrow> channel_dict" where
  "incr_channels chs d = (\<lambda>c. if c \<in> chs then Some (dict_get d c 0 + 1) else d c)"

text \<open>\<open>self.counts[key]\<close> updated in place, the entry being appended when the key is new.\<close>

fun counts_modify ::
  "(string \<times> string) \<Rightarrow> (channel_dict \<Rightarrow> channel_dict) \<Rightarrow>
   ((string \<times> string) \<times> channel_dict) list \<Rightarrow> ((string \<times> string) \<times> channel_dict) list" where
  "counts_modify key f [] = [(key, f Map.empty)]"
| "counts_modify key f ((k, d) # rest) =
     (if k = key then (k, f d) # rest else (k, d) # counts_modify key f rest)"

text \<open>
  \<open>add_read\<close>. The gene is a string here: a list is not hashable and is rejected where
  \<open>main\<close> passes it on. \<open>self.allowed_bcs and ...\<close> is false for \<open>None\<close> and for the
  empty set.
\<close>

definition add_read :: "DGE \<Rightarrow> string \<Rightarrow> string \<Rightarrow> string set \<Rightarrow> DGE" where
  "add_read self gene cell chs =
     (if chs \<noteq> {} then
        (let cell' = (case allowed_bcs self of
                        None \<Rightarrow> cell
                      | Some allowed \<Rightarrow>
                          if allowed \<noteq> {} \<and> cell \<notin> allowed then ''NA'' else cell)
         in self\<lparr>DGE_cells := insert cell' (DGE_cells self),
                 DGE_genes := insert gene (DGE_genes self),
                 counts := counts_modify (gene, cell') (incr_channels chs) (counts self)\<rparr>)
      else self)"

subsection \<open>Sparse matrices\<close>

text \<open>
  \<open>scipy.sparse.csr_matrix((data, (row_ind, col_ind)))\<close> without a \<open>shape\<close> argument:
  the three sequences must have the same length, the shape is inferred as the largest
  index plus one on each axis, which is refused when there is no index at all, and values
  given for the same position are added up. Counts are natural numbers; the 64-bit
  integers of the matrix hold every count that a run can reach.
\<close>

record sparse_matrix =
  shape :: "nat \<times> nat"
  triplets :: "((nat \<times> nat) \<times> nat) list"

definition csr_matrix :: "nat list \<Rightarrow> nat list \<Rightarrow> nat list \<Rightarrow> py_error + sparse_matrix" where
  "csr_matrix data row_ind col_ind =
     (if row_ind = [] \<or> col_ind = [] then Inl ValueError
      else if length row_ind \<noteq> length data \<or> length col_ind \<noteq> length data then Inl ValueError
      else Inr \<lparr>shape = (Max (set row_ind) + 1, Max (set col_ind) + 1),
                triplets = zip (zip row_ind col_ind) data\<rparr>)"

definition matrix_entry :: "sparse_matrix \<Rightarrow> nat \<Rightarrow> nat \<Rightarrow> nat" where
  "matrix_entry m i j = sum_list (map snd (filter (\<lambda>t. fst t = (i, j)) (triplets m)))"

text \<open>The loops that number the sorted cells and genes.\<close>

fun index_loop ::
  "string list \<Rightarrow> (string \<rightharpoonup> nat) \<times> string list \<Rightarrow> (string \<rightharpoonup> nat) \<times> string list" where
  "index_loop [] acc = acc"
| "index_loop (x # xs) (ind, obs) = index_loop xs (ind(x \<mapsto> length obs), obs @ [x])"

text \<open>
  \<open>channel_dict[channel]\<close> on a \<open>defaultdict(int)\<close>: reading a missing key stores 0
  under it.
\<close>

definition defaultdict_read :: "channel_dict \<Rightarrow> string \<Rightarrow> nat \<times> channel_dict" where
  "defaultdict_read d c = (case d c of None \<Rightarrow> (0, d(c \<mapsto> 0)) | Some v \<Rightarrow> (v, d))"

fun channel_loop ::
  "string list \<Rightarrow> channel_dict \<Rightarrow> (string \<Rightarrow> nat list) \<Rightarrow> channel_dict \<times> (string \<Rightarrow> nat list)" where
  "channel_loop [] d counts_by_channel = (d, counts_by_channel)"
| "channel_loop (channel # rest) d counts_by_channel =
     (case defaultdict_read d channel of
        (v, d') \<Rightarrow>
          channel_loop rest d' (counts_by_channel(channel := counts_by_channel channel @ [v])))"

text \<open>
  The loop over \<open>self.counts.items()\<close>. It returns the three lists, or the \<open>KeyError\<close>
  of an index lookup, and the items as the reads have left them.
\<close>

fun items_loop ::
  "string list \<Rightarrow> (string \<rightharpoonup> nat) \<Rightarrow> (string \<rightharpoonup> nat) \<Rightarrow>
   ((string \<times> string) \<times> channel_dict) list \<Rightarrow> (string \<Rightarrow> nat list) \<times> nat list \<times> nat list \<Rightarrow>
   (py_error + ((string \<Rightarrow> nat list) \<times> nat list \<times> nat list)) \<times>
   ((string \<times> string) \<times> channel_dict) list" where
  "items_loop chs ind_of_cell ind_of_gene [] acc = (Inr acc, [])"
| "items_loop chs ind_of_cell ind_of_gene (((gene, cell), d) # rest)
     (counts_by_channel, row_ind, col_ind) =
     (case channel_loop chs d counts_by_channel of
        (d', counts_by_channel') \<Rightarrow>
          (case ind_of_cell cell of
             None \<Rightarrow> (Inl KeyError, ((gene, cell), d') # rest)
           | Some r \<Rightarrow>
               (case ind_of_gene gene of
                  None \<Rightarrow> (Inl KeyError, ((gene, cell), d') # rest)
                | Some c \<Rightarrow>
                    (case items_loop chs ind_of_cell ind_of_gene rest
                            (counts_by_channel', row_ind @ [r], col_ind @ [c]) of
                       (res, rest') \<Rightarrow> (res, ((gene, cell), d') # rest')))))"

text \<open>\<open>sparse_channels[channel] = m\<close> on an \<open>OrderedDict\<close>.\<close>

fun ordered_dict_set :: "'k \<Rightarrow> 'v \<Rightarrow> ('k \<times> 'v) list \<Rightarrow> ('k \<times> 'v) list" where
  "ordered_dict_set k v [] = [(k, v)]"
| "ordered_dict_set k v ((k', v') # rest) =
     (if k' = k then (k, v) # rest else (k', v') # ordered_dict_set k v rest)"

fun matrices_loop ::
  "string list \<Rightarrow> (string \<Rightarrow> nat list) \<Rightarrow> nat list \<Rightarrow> nat list \<Rightarrow>
   (string \<times> sparse_matrix) list \<Rightarrow> py_error + (string \<times> sparse_matrix) list" where
  "matrices_loop [] counts_by_channel row_ind col_ind sparse_channels = Inr sparse_channels"
| "matrices_loop (channel # rest) counts_by_channel row_ind col_ind sparse_channels =
     (case csr_matrix (counts_by_channel channel) row_ind col_ind of
        Inl e \<Rightarrow> Inl e
      | Inr m \<Rightarrow>
          matrices_loop rest counts_by_channel row_ind col_ind
            (ordered_dict_set channel m sparse_channels))"

text \<open>
  \<open>make_sparse_arrays\<close> returns \<open>(sparse_channels, obs, var)\<close> or raises; the second
  component is the store afterwards.
\<close>

definition make_sparse_arrays ::
  "DGE \<Rightarrow> (py_error + ((string \<times> sparse_matrix) list \<times> string list \<times> string list)) \<times> DGE" where
  "make_sparse_arrays self =
     (case index_loop (sorted_list_of_set (DGE_cells self)) (Map.empty, []) of
        (ind_of_cell, obs) \<Rightarrow>
     (case index_loop (sorted_list_of_set (DGE_genes self)) (Map.empty, []) of
        (ind_of_gene, var) \<Rightarrow>
     (case items_loop (channels self) ind_of_cell ind_of_gene (counts self) (\<lambda>_. [], [], []) of
        (Inl e, items') \<Rightarrow> (Inl e, self\<lparr>counts := items'\<rparr>)
      | (Inr (counts_by_channel, row_ind, col_ind), items') \<Rightarrow>
          (case matrices_loop (channels self) counts_by_channel row_ind col_ind [] of
             Inl e \<Rightarrow> (Inl e, self\<lparr>counts := items'\<rparr>)
           | Inr sparse_channels \<Rightarrow>
               (Inr (sparse_channels, obs, var), self\<lparr>counts := items'\<rparr>)))))"

subsection \<open>The counting loop of \<open>main\<close>\<close>

text \<open>
  One iteration of the loop over the bundles: the result of \<open>process_bam_bundle\<close> is
  added to the store when the gene is true as a condition, and the gene then becomes a key
  of the dictionary \<open>gene_source\<close>. Both need a hashable gene, which a list is not.
\<close>

definition main_step ::
  "(string \<times> 'u \<Rightarrow> py_hash) \<Rightarrow> DefaultCounter \<times> DGE \<Rightarrow> string \<times> 'u \<times> alignment list \<Rightarrow>
   py_error + (DefaultCounter \<times> DGE)" where
  "main_step h st b =
     (case st of (counter, dge) \<Rightarrow>
      (case b of (cell, umi, bundle) \<Rightarrow>
        (case process_bam_bundle h counter cell umi bundle of
           Inl e \<Rightarrow> Inl e
         | Inr ((gene, chs), counter') \<Rightarrow>
             (case gene of
                GNone \<Rightarrow> Inr (counter', dge)
              | GStr g \<Rightarrow> Inr (counter', if truthy gene then add_read dge g cell chs else dge)
              | GList l \<Rightarrow> Inl TypeError))))"

fun main_loop ::
  "(string \<times> 'u \<Rightarrow> py_hash) \<Rightarrow> DefaultCounter \<times> DGE \<Rightarrow>
   (string \<times> 'u \<times> alignment list) list \<Rightarrow> py_error + (DefaultCounter \<times> DGE)" where
  "main_loop h st [] = Inr st"
| "main_loop h st (b # bs) =
     (case main_step h st b of Inl e \<Rightarrow> Inl e | Inr st' \<Rightarrow> main_loop h st' bs)"

subsection \<open>Quantities the properties speak about\<close>

text \<open>The total recorded in a channel: the sum of its counts over all (gene, cell) keys.\<close>

definition channel_total :: "DGE \<Rightarrow> string \<Rightarrow> nat" where
  "channel_total dge c = sum_list (map (\<lambda>kd. dict_get (snd kd) c 0) (counts dge))"

text \<open>The count stored for one (gene, cell) key in one channel, 0 when there is none.\<close>

definition count_of :: "DGE \<Rightarrow> string \<times> string \<Rightarrow> string \<Rightarrow> nat" where
  "count_of dge key c = (case map_of (counts dge) key of None \<Rightarrow> 0 | Some d \<Rightarrow> dict_get d c 0)"

text \<open>
  The pairs (gene, channels) that \<open>process_bam_bundle\<close> returns along a run of the
  loop, up to the first exception.
\<close>

fun bundle_results ::
  "(string \<times> 'u \<Rightarrow> py_hash) \<Rightarrow> DefaultCounter \<Rightarrow> (string \<times> 'u \<times> alignment list) list \<Rightarrow>
   (gene_val \<times> string set) list" where
  "bundle_results h counter [] = []"
| "bundle_results h counter ((cell, umi, bundle) # bs) =
     (case process_bam_bundle h counter cell umi bundle of
        Inl e \<Rightarrow> []
      | Inr (r, counter') \<Rightarrow> r # bundle_results h counter' bs)"

text \<open>The features of an alignment, and its priority as the specification defines it: the largest
  table value of its features, codes that are not in the table counting 0.\<close>

definition gene_features :: "alignment \<Rightarrow> string list" where
  "gene_features a = (case a of (chrom, strand, gn, gf, score) \<Rightarrow> gf)"

definition alignment_prio :: "DefaultCounter \<Rightarrow> alignment \<Rightarrow> int" where
  "alignment_prio self a =
     Max ((\<lambda>f. dict_get (alignment_priorities self) f 0) ` set (gene_features a))"

text \<open>
  An instance of the hash parameter for evaluating runs on string UMIs: a 64-bit polynomial
  hash of the barcode followed by the UMI.
\<close>

definition poly_hash :: "string \<times> string \<Rightarrow> py_hash" where
  "poly_hash p = fold (\<lambda>c a. 31 * a + of_char c) (fst p @ snd p) 0"



text \<open>
  What the first two parts of \<open>process_bam_bundle\<close> compute, without the statistics:
  the selected alignment, the gene and features chosen for an alignment, and both in
  sequence, with \<open>(None, [])\<close> when no alignment is selected.
\<close>

definition selected_alignment :: "DefaultCounter \<Rightarrow> alignment list \<Rightarrow> py_error + alignment option" where
  "selected_alignment self bundle =
     (if length bundle = 1 then Inr (Some (hd bundle)) else call_select_alignment self bundle)"

definition selected_gene ::
  "DefaultCounter \<Rightarrow> alignment \<Rightarrow> py_error + (gene_val \<times> string list)" where
  "selected_gene self a =
     (case a of (chrom, strand, gn, gf, score) \<Rightarrow>
        if length gn = 1 then
          (case gf of [] \<Rightarrow> Inl IndexError | f0 # _ \<Rightarrow> Inr (GStr (hd gn), map (\<lambda>c. [c]) f0))
        else call_select_gene self a)"

definition resolve :: "DefaultCounter \<Rightarrow> alignment list \<Rightarrow> py_error + (gene_val \<times> string list)" where
  "resolve self bundle =
     (case selected_alignment self bundle of
        Inl e \<Rightarrow> Inl e
      | Inr None \<Rightarrow> Inr (GNone, [])
      | Inr (Some a) \<Rightarrow> selected_gene self a)"

text \<open>The (cell, UMI) pair of an item of the input stream.\<close>

definition cell_umi :: "string \<times> 'u \<times> alignment list \<Rightarrow> string \<times> 'u" where
  "cell_umi b = (case b of (cell, umi, bundle) \<Rightarrow> (cell, umi))"

text \<open>
  Two channel dictionaries agree when every channel reads the same count in both, a missing
  channel reading 0; two lists of items agree when they have the same keys in the same
  order and agreeing dictionaries.
\<close>

definition dict_equiv :: "channel_dict \<Rightarrow> channel_dict \<Rightarrow> bool" where
  "dict_equiv d1 d2 = (\<forall>c. dict_get d1 c 0 = dict_get d2 c 0)"

definition items_equiv ::
  "((string \<times> string) \<times> channel_dict) list \<Rightarrow> ((string \<times> string) \<times> channel_dict) list \<Rightarrow> bool" where
  "items_equiv = list_all2 (\<lambda>x y. fst x = fst y \<and> dict_equiv (snd x) (snd y))"

text \<open>
  The stores that \<open>add_read\<close> builds: no key occurs twice, and the observed cells and
  genes are those of the keys.
\<close>

definition store_inv :: "DGE \<Rightarrow> bool" where
  "store_inv s = (distinct (map fst (counts s)) \<and>
                  DGE_cells s = snd ` fst ` set (counts s) \<and>
                  DGE_genes s = fst ` fst ` set (counts s))"

section \<open>Properties\<close>

subsection \<open>The count store: \<open>add_read\<close>\<close>

lemma map_of_counts_modify:
  "map_of (counts_modify key f xs) k =
     (if k = key then Some (f (case map_of xs key of None \<Rightarrow> Map.empty | Some d \<Rightarrow> d))
      else map_of xs k)"
  by (induction xs) auto

lemma count_of_counts_modify:
  assumes "counts s' = counts_modify key (incr_channels chs) (counts s)"
  shows "count_of s' k c = count_of s k c + (if k = key \<and> c \<in> chs then 1 else 0)"
  using assms
  by (auto simp: count_of_def map_of_counts_modify incr_channels_def dict_get_def
           split: option.splits)

lemma add_read_fields:
  assumes "chs \<noteq> {}"
    and "cell' = (case allowed_bcs self of None \<Rightarrow> cell
                  | Some allowed \<Rightarrow> if allowed \<noteq> {} \<and> cell \<notin> allowed then ''NA'' else cell)"
  shows "DGE_cells (add_read self gene cell chs) = insert cell' (DGE_cells self)"
    and "DGE_genes (add_read self gene cell chs) = insert gene (DGE_genes self)"
    and "counts (add_read self gene cell chs) =
           counts_modify (gene, cell') (incr_channels chs) (counts self)"
    and "channels (add_read self gene cell chs) = channels self"
    and "allowed_bcs (add_read self gene cell chs) = allowed_bcs self"
  using assms by (simp_all add: add_read_def Let_def)

text \<open>
  Claim C8. Calling \<open>add_read\<close> with an empty channel set leaves the whole store as it
  was: counts, observed cells, observed genes and configuration.
\<close>

theorem add_read_empty_channels: "add_read self gene cell {} = self"
  by (simp add: add_read_def)

text \<open>
  What a call with a non-empty channel set does. With a non-empty allow-list and a barcode
  that is not on it, the call records the cell \<open>NA\<close> and adds one, for every channel of
  the set, to the count of (gene, \<open>NA\<close>), and changes no other count. Without an
  allow-list the barcode is used as it is, and so it is with an allow-list that is empty.
\<close>

lemma add_read_allowlist:
  assumes "chs \<noteq> {}"
  shows "(allowed_bcs self = Some allowed \<and> allowed \<noteq> {} \<and> cell \<notin> allowed \<longrightarrow>
            DGE_cells (add_read self gene cell chs) = insert ''NA'' (DGE_cells self) \<and>
            (\<forall>k c. count_of (add_read self gene cell chs) k c =
                   count_of self k c + (if k = (gene, ''NA'') \<and> c \<in> chs then 1 else 0)))
       \<and> (allowed_bcs self = None \<or> allowed_bcs self = Some {} \<longrightarrow>
            DGE_cells (add_read self gene cell chs) = insert cell (DGE_cells self) \<and>
            (\<forall>k c. count_of (add_read self gene cell chs) k c =
                   count_of self k c + (if k = (gene, cell) \<and> c \<in> chs then 1 else 0)))"
proof (intro conjI impI allI)
  assume a: "allowed_bcs self = Some allowed \<and> allowed \<noteq> {} \<and> cell \<notin> allowed"
  then have c: "''NA'' = (case allowed_bcs self of None \<Rightarrow> cell
                  | Some allowed \<Rightarrow> if allowed \<noteq> {} \<and> cell \<notin> allowed then ''NA'' else cell)"
    by simp
  show "DGE_cells (add_read self gene cell chs) = insert ''NA'' (DGE_cells self)"
    by (rule add_read_fields(1)[OF assms c])
  show "count_of (add_read self gene cell chs) k c =
          count_of self k c + (if k = (gene, ''NA'') \<and> c \<in> chs then 1 else 0)" for k c
    by (rule count_of_counts_modify[OF add_read_fields(3)[OF assms c]])
next
  assume a: "allowed_bcs self = None \<or> allowed_bcs self = Some {}"
  then have c: "cell = (case allowed_bcs self of None \<Rightarrow> cell
                  | Some allowed \<Rightarrow> if allowed \<noteq> {} \<and> cell \<notin> allowed then ''NA'' else cell)"
    by auto
  show "DGE_cells (add_read self gene cell chs) = insert cell (DGE_cells self)"
    by (rule add_read_fields(1)[OF assms c])
  show "count_of (add_read self gene cell chs) k c =
          count_of self k c + (if k = (gene, cell) \<and> c \<in> chs then 1 else 0)" for k c
    by (rule count_of_counts_modify[OF add_read_fields(3)[OF assms c]])
qed

text \<open>
  Claim C7 at an allow-list file without lines. The list is configured and the barcode
  \<open>AAAA\<close> is not on it, so the claim asks for the count under the sentinel cell; the
  test \<open>self.allowed_bcs and ...\<close> is false for the empty set, and the read is stored
  under \<open>AAAA\<close> itself, with nothing under \<open>NA\<close> or \<open>unassigned\<close>.
\<close>

theorem add_read_empty_allowlist_failing_input:
  "allowed_bcs (DGE_init default_channels (Some [])) = Some {} \<and>
   DGE_cells (add_read (DGE_init default_channels (Some [])) ''GeneA'' ''AAAA'' {''exonic_reads''})
     = {''AAAA''} \<and>
   count_of (add_read (DGE_init default_channels (Some [])) ''GeneA'' ''AAAA'' {''exonic_reads''})
     (''GeneA'', ''AAAA'') ''exonic_reads'' = 1 \<and>
   count_of (add_read (DGE_init default_channels (Some [])) ''GeneA'' ''AAAA'' {''exonic_reads''})
     (''GeneA'', ''NA'') ''exonic_reads'' = 0 \<and>
   count_of (add_read (DGE_init default_channels (Some [])) ''GeneA'' ''AAAA'' {''exonic_reads''})
     (''GeneA'', ''unassigned'') ''exonic_reads'' = 0"
  by (simp add: DGE_init_def load_list_def add_read_def count_of_def incr_channels_def dict_get_def Let_def)

subsection \<open>Channel determination\<close>

lemma determine_channels_loop_inv_aux:
  "determine_channels_loop self u gf (chs0, e0, i0) = (chs, e, i) \<Longrightarrow>
     (e \<longleftrightarrow> e0 \<or> (\<exists>f\<in>set gf. f \<in> exonic_set self)) \<and> (i0 \<longrightarrow> i) \<and>
     (''intronic_reads'' \<in> chs \<longrightarrow> ''intronic_reads'' \<in> chs0 \<or> i) \<and>
     (''intronic_counts'' \<in> chs \<longrightarrow> ''intronic_counts'' \<in> chs0 \<or> i) \<and>
     (''counts'' \<in> chs \<longrightarrow> ''counts'' \<in> chs0)"
proof (induction gf arbitrary: chs0 e0 i0)
  case Nil
  then show ?case by simp
next
  case (Cons f gf)
  show ?case
  proof (cases "f \<in> exonic_set self")
    case True
    with Cons.prems Cons.IH[of _ True i0] show ?thesis
      by (cases u) auto
  next
    case False
    show ?thesis
    proof (cases "f \<in> intronic_set self")
      case True
      with False Cons.prems Cons.IH[of _ e0 True] show ?thesis
        by (cases u) auto
    next
      case f2: False
      with False Cons.prems Cons.IH[of chs0 e0 i0] show ?thesis by auto
    qed
  qed
qed

lemma determine_channels_loop_inv:
  assumes "determine_channels_loop self u gf (chs0, e0, i0) = (chs, e, i)"
  shows "(e \<longleftrightarrow> e0 \<or> (\<exists>f\<in>set gf. f \<in> exonic_set self))"
    and "''intronic_reads'' \<in> chs \<Longrightarrow> ''intronic_reads'' \<in> chs0 \<or> i"
    and "''intronic_counts'' \<in> chs \<Longrightarrow> ''intronic_counts'' \<in> chs0 \<or> i"
    and "''counts'' \<in> chs \<Longrightarrow> ''counts'' \<in> chs0"
  using determine_channels_loop_inv_aux[OF assms] by blast+

text \<open>
  Claim C4. Under the policy \<open>exon_wins\<close>, features with at least one exonic and at
  least one intronic code give a channel set without \<open>intronic_reads\<close> and
  \<open>intronic_counts\<close>; and under every policy \<open>counts\<close> is in the result exactly when
  the channel set after the policy meets the channels configured for the main matrix.
\<close>

theorem determine_channels_exon_wins_and_main:
  "(exon_intron_disambiguation_func self = Exon_wins \<and>
      (\<exists>f\<in>set gf. f \<in> exonic_set self) \<and> (\<exists>f\<in>set gf. f \<in> intronic_set self) \<longrightarrow>
      ''intronic_reads'' \<notin> determine_channels self gf u \<and>
      ''intronic_counts'' \<notin> determine_channels self gf u)
   \<and> (''counts'' \<in> determine_channels self gf u \<longleftrightarrow>
        post_policy_channels self gf u \<inter> count_X_channels self \<noteq> {})"
proof -
  obtain chs e i where L: "determine_channels_loop self u gf ({}, False, False) = (chs, e, i)"
    by (metis prod_cases3)
  note inv = determine_channels_loop_inv[OF L]
  have no_counts: "''counts'' \<notin> post_policy_channels self gf u"
    using inv(4) by (cases "exon_intron_disambiguation_func self") (auto simp: post_policy_channels_def L)
  have part2: "''counts'' \<in> determine_channels self gf u \<longleftrightarrow>
        post_policy_channels self gf u \<inter> count_X_channels self \<noteq> {}"
    using no_counts by (auto simp: determine_channels_def Let_def)
  have part1: "''intronic_reads'' \<notin> determine_channels self gf u \<and>
      ''intronic_counts'' \<notin> determine_channels self gf u"
    if "exon_intron_disambiguation_func self = Exon_wins" "\<exists>f\<in>set gf. f \<in> exonic_set self"
  proof -
    have "e" using inv(1) that(2) by simp
    then have "''intronic_reads'' \<notin> post_policy_channels self gf u \<and>
               ''intronic_counts'' \<notin> post_policy_channels self gf u"
      using inv(2,3) that(1) by (auto simp: post_policy_channels_def L)
    then show ?thesis by (auto simp: determine_channels_def Let_def)
  qed
  show ?thesis using part1 part2 by blast
qed

text \<open>The theorem at the features \<open>[C, I]\<close> of Scenario C, with the default counter.\<close>

theorem determine_channels_exon_wins_and_main_witness:
  "determine_channels default_counter [''C'', ''I''] True = {''counts'', ''exonic_counts'', ''exonic_reads''}
   \<and> ''intronic_reads'' \<notin> determine_channels default_counter [''C'', ''I''] True
   \<and> ''intronic_counts'' \<notin> determine_channels default_counter [''C'', ''I''] True"
proof -
  have a: "exon_intron_disambiguation_func default_counter = Exon_wins"
    and b: "\<exists>f\<in>set [''C'', ''I'']. f \<in> exonic_set default_counter"
    and c: "\<exists>f\<in>set [''C'', ''I'']. f \<in> intronic_set default_counter"
    by (simp_all add: default_counter_def DefaultCounter_init_def default_exonic_tags_def
          default_intronic_tags_def)
  have d: "determine_channels default_counter [''C'', ''I''] True
             = {''counts'', ''exonic_counts'', ''exonic_reads''}"
    by (auto simp: determine_channels_def post_policy_channels_def default_counter_def
          DefaultCounter_init_def default_exonic_tags_def default_intronic_tags_def
          default_X_counts_def Let_def)
  from determine_channels_exon_wins_and_main[of default_counter "[''C'', ''I'']" True] a b c d
  show ?thesis by blast
qed

subsection \<open>Alignment selection\<close>

lemma get_prio_eq:
  "gene_features a \<noteq> [] \<Longrightarrow> a = (chrom, strand, gn, gf, score) \<Longrightarrow>
   get_prio (alignment_priorities self) gf = Inr (alignment_prio self a)"
  by (simp add: get_prio_def alignment_prio_def gene_features_def Let_def)

lemma Max_insert2:
  fixes t :: int
  assumes "finite S"
  shows "Max (insert t (insert p S)) = (if t < p then Max (insert p S) else Max (insert t S))"
  using assms by (cases "S = {}") (auto simp: max_def)

lemma hits_empty_Max:
  fixes t0 :: int
  assumes "filter (\<lambda>a. f a = Max (insert t0 (f ` set xs))) xs = []"
  shows "Max (insert t0 (f ` set xs)) = t0"
proof -
  have "Max (insert t0 (f ` set xs)) \<in> insert t0 (f ` set xs)"
    by (rule Max_in) auto
  moreover have "Max (insert t0 (f ` set xs)) \<notin> f ` set xs"
    using assms by (auto simp: filter_empty_conv)
  ultimately show ?thesis by simp
qed

lemma select_alignment_loop_spec:
  assumes "\<forall>a\<in>set bundle. gene_features a \<noteq> []"
  shows "select_alignment_loop (alignment_priorities self) bundle (t0, n, kept) =
     Inr (Max (insert t0 (alignment_prio self ` set bundle)),
          (if Max (insert t0 (alignment_prio self ` set bundle)) = t0 then n else 0)
            + length (filter (\<lambda>a. alignment_prio self a
                               = Max (insert t0 (alignment_prio self ` set bundle))) bundle),
          if filter (\<lambda>a. alignment_prio self a
                               = Max (insert t0 (alignment_prio self ` set bundle))) bundle = []
          then kept
          else Some (last (filter (\<lambda>a. alignment_prio self a
                               = Max (insert t0 (alignment_prio self ` set bundle))) bundle)))"
  using assms
proof (induction "bundle" arbitrary: t0 n kept)
  case Nil
  then show ?case by simp
next
  case (Cons a rest)
  obtain chrom strand gn gf score where a: "a = (chrom, strand, gn, gf, score)"
    by (metis prod_cases5)
  let ?tab = "alignment_priorities self"
  let ?f = "alignment_prio self"
  let ?p = "?f a"
  let ?S = "?f ` set rest"
  have gp: "get_prio ?tab gf = Inr ?p"
    using Cons.prems get_prio_eq[OF _ a] by simp
  have rest: "\<forall>a\<in>set rest. gene_features a \<noteq> []" using Cons.prems by simp
  note IH = Cons.IH[OF rest]
  have fin: "finite ?S" by simp
  have step: "select_alignment_loop ?tab (a # rest) (t0, n, kept) =
      (if ?p > t0 then select_alignment_loop ?tab rest (?p, 1, Some a)
       else if ?p = t0 then select_alignment_loop ?tab rest (t0, n + 1, Some a)
       else select_alignment_loop ?tab rest (t0, n, kept))"
    using gp by (simp add: a)
  define M where "M = Max (insert t0 (?f ` set (a # rest)))"
  define hits where "hits = filter (\<lambda>x. ?f x = M) rest"
  have hits_Cons: "filter (\<lambda>x. ?f x = M) (a # rest) = (if ?p = M then a # hits else hits)"
    by (simp add: hits_def)
  consider (gt) "?p > t0" | (eq) "?p = t0" | (lt) "?p < t0" by linarith
  then have "select_alignment_loop ?tab (a # rest) (t0, n, kept) =
     Inr (M, (if M = t0 then n else 0) + length (filter (\<lambda>x. ?f x = M) (a # rest)),
          if filter (\<lambda>x. ?f x = M) (a # rest) = [] then kept
          else Some (last (filter (\<lambda>x. ?f x = M) (a # rest))))"
  proof cases
    case gt
    have M1: "M = Max (insert ?p ?S)"
      unfolding M_def using gt fin by (simp add: Max_insert2 del: Max_insert)
    have ge: "M \<ge> ?p" unfolding M1 by simp
    have ne: "M \<noteq> t0" using gt ge by linarith
    have e: "hits = [] \<Longrightarrow> M = ?p"
      unfolding hits_def M1 by (rule hits_empty_Max)
    have "select_alignment_loop ?tab (a # rest) (t0, n, kept)
            = select_alignment_loop ?tab rest (?p, 1, Some a)"
      using step gt by simp
    also have "\<dots> = Inr (M, (if M = ?p then 1 else 0) + length hits,
                          if hits = [] then Some a else Some (last hits))"
      unfolding hits_def M1 by (rule IH)
    also have "\<dots> = Inr (M, (if M = t0 then n else 0) + length (filter (\<lambda>x. ?f x = M) (a # rest)),
          if filter (\<lambda>x. ?f x = M) (a # rest) = [] then kept
          else Some (last (filter (\<lambda>x. ?f x = M) (a # rest))))"
      unfolding hits_Cons using ne e by (cases "hits = []") auto
    finally show ?thesis .
  next
    case eq
    have M1: "M = Max (insert t0 ?S)"
      unfolding M_def using eq fin by (simp add: Max_insert2 del: Max_insert)
    have e: "hits = [] \<Longrightarrow> M = t0"
      unfolding hits_def M1 by (rule hits_empty_Max)
    have "select_alignment_loop ?tab (a # rest) (t0, n, kept)
            = select_alignment_loop ?tab rest (t0, n + 1, Some a)"
      using step eq by simp
    also have "\<dots> = Inr (M, (if M = t0 then n + 1 else 0) + length hits,
                          if hits = [] then Some a else Some (last hits))"
      unfolding hits_def M1 by (rule IH)
    also have "\<dots> = Inr (M, (if M = t0 then n else 0) + length (filter (\<lambda>x. ?f x = M) (a # rest)),
          if filter (\<lambda>x. ?f x = M) (a # rest) = [] then kept
          else Some (last (filter (\<lambda>x. ?f x = M) (a # rest))))"
      unfolding hits_Cons using eq e by (cases "hits = []") auto
    finally show ?thesis .
  next
    case lt
    have M1: "M = Max (insert t0 ?S)"
      unfolding M_def using lt fin by (simp add: Max_insert2 del: Max_insert)
    have ge: "M \<ge> t0" unfolding M1 by simp
    have ne: "?p \<noteq> M" using lt ge by linarith
    have "select_alignment_loop ?tab (a # rest) (t0, n, kept)
            = select_alignment_loop ?tab rest (t0, n, kept)"
      using step lt by simp
    also have "\<dots> = Inr (M, (if M = t0 then n else 0) + length hits,
                          if hits = [] then kept else Some (last hits))"
      unfolding hits_def M1 by (rule IH)
    also have "\<dots> = Inr (M, (if M = t0 then n else 0) + length (filter (\<lambda>x. ?f x = M) (a # rest)),
          if filter (\<lambda>x. ?f x = M) (a # rest) = [] then kept
          else Some (last (filter (\<lambda>x. ?f x = M) (a # rest))))"
      unfolding hits_Cons using ne by simp
    finally show ?thesis .
  qed
  then show ?case unfolding M_def .
qed

text \<open>
  The result of the priority strategy on any bundle whose alignments have at least one
  feature each: the scan ends with the larger of 0 and the maximal priority, and returns
  the alignment that attains it when there is exactly one.
\<close>

lemma select_alignment_by_priority_exact:
  assumes "\<forall>a\<in>set bundle. gene_features a \<noteq> []"
  shows "select_alignment_by_priority self bundle =
           Inr (case filter (\<lambda>a. alignment_prio self a
                                  = Max (insert 0 (alignment_prio self ` set bundle))) bundle
                of [a] \<Rightarrow> Some a | _ \<Rightarrow> None)"
proof -
  define hits where "hits = filter (\<lambda>a. alignment_prio self a
                                  = Max (insert 0 (alignment_prio self ` set bundle))) bundle"
  have "select_alignment_loop (alignment_priorities self) bundle (0, 0, None) =
     Inr (Max (insert 0 (alignment_prio self ` set bundle)),
          (if Max (insert 0 (alignment_prio self ` set bundle)) = 0 then 0 else 0) + length hits,
          if hits = [] then None else Some (last hits))"
    using select_alignment_loop_spec[OF assms, of self 0 0 None] unfolding hits_def by blast
  then have "select_alignment_by_priority self bundle =
     Inr (if length hits = 1 then (if hits = [] then None else Some (last hits)) else None)"
    by (simp add: select_alignment_by_priority_def)
  also have "\<dots> = Inr (case hits of [a] \<Rightarrow> Some a | _ \<Rightarrow> None)"
    by (cases hits rule: list.exhaust; simp split: list.splits)
  finally show ?thesis unfolding hits_def .
qed

text \<open>A bundle with exactly one alignment yields that alignment, whatever the strategy.\<close>

lemma alignment_stage_single:
  "length bundle = 1 \<Longrightarrow>
   alignment_stage self bundle = Inr (Some (hd bundle), stats_incr ''N_aln_unique'' self)"
  by (simp add: alignment_stage_def)

text \<open>
  Two or more alignments of maximal priority give \<open>None\<close>, for every priority table.
\<close>

lemma select_alignment_by_priority_tie:
  assumes gf: "\<forall>a\<in>set bundle. gene_features a \<noteq> []"
    and tie: "2 \<le> length (filter (\<lambda>a. alignment_prio self a
                                     = Max (alignment_prio self ` set bundle)) bundle)"
  shows "select_alignment_by_priority self bundle = Inr None"
proof -
  let ?f = "alignment_prio self"
  let ?S = "?f ` set bundle"
  have ne: "?S \<noteq> {}" and fin: "finite ?S" using tie by auto
  show ?thesis
  proof (cases "0 \<le> Max ?S")
    case True
    then have M: "Max (insert 0 ?S) = Max ?S" using fin ne by (simp add: max_def)
    obtain x y zs where "filter (\<lambda>a. ?f a = Max ?S) bundle = x # y # zs"
      using tie by (cases "filter (\<lambda>a. ?f a = Max ?S) bundle" rule: remdups_adj.cases) auto
    then show ?thesis
      unfolding select_alignment_by_priority_exact[OF gf] M by simp
  next
    case False
    then have M: "Max (insert 0 ?S) = 0" using fin ne by (simp add: max_def)
    have "?f a \<noteq> 0" if "a \<in> set bundle" for a
    proof -
      have "?f a \<le> Max ?S" using that fin by simp
      with False show ?thesis by simp
    qed
    then have "filter (\<lambda>a. ?f a = 0) bundle = []" by (simp add: filter_empty_conv)
    then show ?thesis
      unfolding select_alignment_by_priority_exact[OF gf] M by simp
  qed
qed

text \<open>
  A priority of 0 or more that exactly one alignment of the bundle attains as the maximum
  gives that alignment.
\<close>

lemma select_alignment_by_priority_unique:
  assumes gf: "\<forall>a\<in>set bundle. gene_features a \<noteq> []"
    and one: "filter (\<lambda>a. alignment_prio self a = Max (alignment_prio self ` set bundle)) bundle = [a]"
    and pos: "0 \<le> alignment_prio self a"
  shows "select_alignment_by_priority self bundle = Inr (Some a)"
proof -
  let ?f = "alignment_prio self"
  let ?S = "?f ` set bundle"
  have "a \<in> set (filter (\<lambda>a. ?f a = Max ?S) bundle)" unfolding one by simp
  then have a: "a \<in> set bundle" "?f a = Max ?S" by auto
  then have ne: "?S \<noteq> {}" and fin: "finite ?S" by auto
  have M: "Max (insert 0 ?S) = Max ?S" using fin ne pos a(2) by (simp add: max_def)
  show ?thesis
    unfolding select_alignment_by_priority_exact[OF gf] M one by simp
qed

text \<open>
  Claim C3 at a priority table with negative values. The first alignment has priority
  \<open>- 1\<close>, the second \<open>- 2\<close>, so exactly one alignment attains the maximum and the
  claim asks for it. The scan starts from the priority 0, which no alignment of this bundle
  reaches, and the method returns \<open>None\<close>.
\<close>

theorem select_alignment_by_priority_failing_input:
  "alignment_prio (default_counter\<lparr>alignment_priorities := [''x'' \<mapsto> - 1, ''y'' \<mapsto> - 2]\<rparr>)
      (''chr1'', ''+'', [''GeneA''], [''x''], 10) = - 1
   \<and> alignment_prio (default_counter\<lparr>alignment_priorities := [''x'' \<mapsto> - 1, ''y'' \<mapsto> - 2]\<rparr>)
      (''chr2'', ''+'', [''GeneB''], [''y''], 5) = - 2
   \<and> select_alignment_by_priority
        (default_counter\<lparr>alignment_priorities := [''x'' \<mapsto> - 1, ''y'' \<mapsto> - 2]\<rparr>)
        [(''chr1'', ''+'', [''GeneA''], [''x''], 10), (''chr2'', ''+'', [''GeneB''], [''y''], 5)]
     = Inr None"
  by (simp add: alignment_prio_def gene_features_def select_alignment_by_priority_def
        get_prio_def dict_get_def Let_def)

subsection \<open>Deduplication\<close>

lemma snd_observe: "snd (observe h seen cell umi) = insert (h (cell, umi)) seen"
  by (auto simp: observe_def Let_def)

lemma fst_observe: "fst (observe h seen cell umi) = (h (cell, umi) \<notin> seen)"
  by (simp add: observe_def Let_def)

text \<open>
  When a sequence of (cell, UMI) pairs is presented to one set, the test answers true at a
  position exactly when the hash value of the pair there is neither in the initial set nor
  the hash value of a pair presented before: the key of the comparison is the hash value,
  not the pair.
\<close>

lemma observe_all_first_hash:
  "i < length ps \<Longrightarrow> observe_all h seen ps ! i = (h (ps ! i) \<notin> seen \<union> h ` set (take i ps))"
proof (induction ps arbitrary: seen i)
  case Nil
  then show ?case by simp
next
  case (Cons p ps)
  obtain cell umi where p: "p = (cell, umi)" by (cases p)
  show ?case
  proof (cases i)
    case 0
    then show ?thesis by (simp add: p fst_observe)
  next
    case (Suc j)
    with Cons.prems have "j < length ps" by simp
    from Cons.IH[OF this, of "insert (h (cell, umi)) seen"] Suc
    show ?thesis by (simp add: p snd_observe)
  qed
qed

text \<open>
  There are infinitely many pairs of strings and finitely many hash values, so every hash
  function has two different pairs with the same value, and the second of them is not a
  first observation after the first.
\<close>

lemma hash_not_injective:
  fixes h :: "string \<times> string \<Rightarrow> py_hash"
  shows "\<exists>p q. p \<noteq> q \<and> h p = h q"
proof -
  have "infinite (UNIV :: string set)" by (rule infinite_UNIV_listI)
  then have inf: "infinite (UNIV :: (string \<times> string) set)"
    by (simp add: finite_prod)
  have "\<not> inj h"
  proof
    assume "inj h"
    then have "finite (UNIV :: (string \<times> string) set)"
      using finite_imageD[of h UNIV] by (metis finite_code inj_on_finite subset_UNIV)
    with inf show False by simp
  qed
  then show ?thesis by (auto simp: inj_on_def)
qed

lemma observe_collision:
  "h p = h q \<Longrightarrow> fst (observe h (snd (observe h seen (fst p) (snd p))) (fst q) (snd q)) = False"
  by (simp add: fst_observe snd_observe)

subsection \<open>Processing one bundle\<close>

text \<open>
  The selection strategies and the channel determination read the configuration only, not
  the statistics and not the set of hash values.
\<close>

lemma call_select_alignment_frame:
  "call_select_alignment (s\<lparr>stats := S\<rparr>) b = call_select_alignment s b"
  "call_select_alignment (s\<lparr>uniq := U\<rparr>) b = call_select_alignment s b"
  "call_select_alignment (stats_incr n s) b = call_select_alignment s b"
  by (simp_all add: call_select_alignment_def select_alignment_by_priority_def stats_incr_def
        split: alignment_selection.splits)

lemma call_select_gene_frame:
  "call_select_gene (s\<lparr>stats := S\<rparr>) a = call_select_gene s a"
  "call_select_gene (s\<lparr>uniq := U\<rparr>) a = call_select_gene s a"
  "call_select_gene (stats_incr n s) a = call_select_gene s a"
  by (simp_all add: call_select_gene_def select_gene_by_priority_def stats_incr_def
        split: gene_selection.splits)

lemma determine_channels_loop_cong:
  "exonic_set s1 = exonic_set s2 \<Longrightarrow> intronic_set s1 = intronic_set s2 \<Longrightarrow>
   determine_channels_loop s1 u gf acc = determine_channels_loop s2 u gf acc"
proof (induction gf arbitrary: acc)
  case Nil
  then show ?case by simp
next
  case (Cons f gf)
  obtain chs e i where acc: "acc = (chs, e, i)" by (metis prod_cases3)
  show ?case using Cons by (simp add: acc)
qed

lemma determine_channels_frame:
  "determine_channels (s\<lparr>stats := S\<rparr>) gf u = determine_channels s gf u"
  "determine_channels (s\<lparr>uniq := U\<rparr>) gf u = determine_channels s gf u"
  "determine_channels (stats_incr n s) gf u = determine_channels s gf u"
  by (simp_all add: determine_channels_def post_policy_channels_def stats_incr_def
        determine_channels_loop_cong[of "s\<lparr>stats := S\<rparr>" s]
        determine_channels_loop_cong[of "s\<lparr>uniq := U\<rparr>" s]
        determine_channels_loop_cong[of "s\<lparr>stats := (stats s)(n := Suc (stats s n))\<rparr>" s]
        Let_def split: prod.splits)

text \<open>What each part of \<open>process_bam_bundle\<close> returns and how it changes the counter.\<close>

lemma alignment_stage_char:
  "alignment_stage s b = Inl e \<longleftrightarrow> selected_alignment s b = Inl e"
  "alignment_stage s b = Inr (sel, s') \<Longrightarrow>
     selected_alignment s b = Inr sel \<and> s' = s\<lparr>stats := stats s'\<rparr>"
  by (auto simp: alignment_stage_def selected_alignment_def call_select_alignment_frame
        stats_incr_def split: sum.splits option.splits if_splits)

lemma gene_stage_char:
  "gene_stage s a = Inl e \<longleftrightarrow> selected_gene s a = Inl e"
  "gene_stage s a = Inr (gene, gf, s') \<Longrightarrow>
     selected_gene s a = Inr (gene, gf) \<and> s' = s\<lparr>stats := stats s'\<rparr>"
  by (auto simp: gene_stage_def selected_gene_def call_select_gene_frame Let_def
        stats_incr_def split: sum.splits option.splits if_splits list.splits prod.splits)

lemma counting_stage_char:
  "counting_stage h s cell umi gene gf = Inl e \<longleftrightarrow> truthy gene \<and> gf = [] \<and> e = IndexError"
  "counting_stage h s cell umi gene gf = Inr (chs, s') \<Longrightarrow>
     s' = s\<lparr>stats := stats s', uniq := uniq s'\<rparr> \<and>
     (if truthy gene
      then chs = determine_channels s gf (h (cell, umi) \<notin> uniq s) \<and>
           uniq s' = insert (h (cell, umi)) (uniq s)
      else chs = {} \<and> uniq s' = uniq s)"
  by (auto simp: counting_stage_def Let_def stats_incr_def determine_channels_frame
        fst_observe snd_observe split: list.splits if_splits)

lemma selected_gene_frame:
  "selected_gene (s\<lparr>stats := S\<rparr>) a = selected_gene s a"
  "selected_gene (s\<lparr>uniq := U\<rparr>) a = selected_gene s a"
  by (simp_all add: selected_gene_def call_select_gene_frame split: prod.splits)

lemma resolve_frame:
  "resolve (s\<lparr>stats := S\<rparr>) b = resolve s b"
  "resolve (s\<lparr>uniq := U\<rparr>) b = resolve s b"
  by (simp_all add: resolve_def selected_alignment_def selected_gene_frame
        call_select_alignment_frame split: sum.splits option.splits)

lemma process_bam_bundle_Inr:
  assumes "process_bam_bundle h s cell umi b = Inr ((gene, chs), s')"
  shows "(\<exists>S. s' = s\<lparr>stats := S,
                     uniq := (if truthy gene then insert (h (cell, umi)) (uniq s) else uniq s)\<rparr>) \<and>
         (\<exists>gf. resolve s b = Inr (gene, gf) \<and>
            (if truthy gene
             then gf \<noteq> [] \<and> chs = determine_channels s gf (h (cell, umi) \<notin> uniq s)
             else chs = {}))"
proof (cases "alignment_stage s b")
  case (Inl e)
  with assms show ?thesis by (simp add: process_bam_bundle_def)
next
  case (Inr r)
  obtain sel s1 where r: "r = (sel, s1)" by (cases r)
  from alignment_stage_char(2)[OF Inr[unfolded r]]
  have sel: "selected_alignment s b = Inr sel" and "s1 = s\<lparr>stats := stats s1\<rparr>" by auto
  then obtain S1 where s1: "s1 = s\<lparr>stats := S1\<rparr>" by blast
  show ?thesis
  proof (cases sel)
    case None
    with assms Inr r sel s1 show ?thesis
      by (auto simp: process_bam_bundle_def resolve_def)
  next
    case (Some a)
    show ?thesis
    proof (cases "gene_stage s1 a")
      case (Inl e)
      with assms Inr r Some show ?thesis by (simp add: process_bam_bundle_def)
    next
      case Inr2: (Inr r2)
      obtain g gf s2 where r2: "r2 = (g, gf, s2)" by (cases r2)
      from gene_stage_char(2)[OF Inr2[unfolded r2]]
      have sg: "selected_gene s1 a = Inr (g, gf)" and "s2 = s1\<lparr>stats := stats s2\<rparr>" by auto
      then obtain S2 where s2: "s2 = s\<lparr>stats := S2\<rparr>" unfolding s1 by simp
      have res: "resolve s b = Inr (g, gf)"
        using sel Some sg unfolding s1 by (simp add: resolve_def selected_gene_frame)
      show ?thesis
      proof (cases "counting_stage h s2 cell umi g gf")
        case (Inl e)
        with assms Inr r Some Inr2 r2 show ?thesis by (simp add: process_bam_bundle_def)
      next
        case Inr3: (Inr r3)
        obtain c3 s3 where r3: "r3 = (c3, s3)" by (cases r3)
        from assms Inr r Some Inr2 r2 Inr3 r3
        have eqs: "gene = g" "chs = c3" "s' = s3" by (simp_all add: process_bam_bundle_def)
        from counting_stage_char(2)[OF Inr3[unfolded r3]]
        have s3: "s3 = s2\<lparr>stats := stats s3, uniq := uniq s3\<rparr>"
          and c: "if truthy g
                  then c3 = determine_channels s2 gf (h (cell, umi) \<notin> uniq s2) \<and>
                       uniq s3 = insert (h (cell, umi)) (uniq s2)
                  else c3 = {} \<and> uniq s3 = uniq s2" by auto
        have gfne: "truthy g \<Longrightarrow> gf \<noteq> []"
          using Inr3 by (auto simp: counting_stage_def)
        have u3: "uniq s3 = (if truthy g then insert (h (cell, umi)) (uniq s) else uniq s)"
          using c unfolding s2 by (simp split: if_splits)
        have "s3 = s\<lparr>stats := stats s3, uniq := uniq s3\<rparr>"
          using s3 unfolding s2 by simp
        then have shape: "\<exists>S. s3 = s\<lparr>stats := S,
              uniq := (if truthy g then insert (h (cell, umi)) (uniq s) else uniq s)\<rparr>"
          unfolding u3[symmetric] by blast
        have ch: "if truthy g then gf \<noteq> [] \<and> c3 = determine_channels s gf (h (cell, umi) \<notin> uniq s)
                  else c3 = {}"
          using c gfne unfolding s2 by (simp add: determine_channels_frame split: if_splits)
        show ?thesis
          unfolding eqs using res shape ch by blast
      qed
    qed
  qed
qed

lemma process_bam_bundle_Inl:
  assumes "process_bam_bundle h s cell umi b = Inl e"
  shows "resolve s b = Inl e \<or> (\<exists>gene. resolve s b = Inr (gene, []) \<and> truthy gene \<and> e = IndexError)"
proof (cases "alignment_stage s b")
  case (Inl e')
  with assms have "e' = e" by (simp add: process_bam_bundle_def)
  with Inl alignment_stage_char(1)[of s b e] show ?thesis by (simp add: resolve_def)
next
  case (Inr r)
  obtain sel s1 where r: "r = (sel, s1)" by (cases r)
  from alignment_stage_char(2)[OF Inr[unfolded r]]
  have sel: "selected_alignment s b = Inr sel" and "s1 = s\<lparr>stats := stats s1\<rparr>" by auto
  then obtain S1 where s1: "s1 = s\<lparr>stats := S1\<rparr>" by blast
  show ?thesis
  proof (cases sel)
    case None
    with assms Inr r show ?thesis by (simp add: process_bam_bundle_def)
  next
    case (Some a)
    show ?thesis
    proof (cases "gene_stage s1 a")
      case (Inl e')
      with assms Inr r Some have "e' = e" by (simp add: process_bam_bundle_def)
      with Inl gene_stage_char(1)[of s1 a e] have "selected_gene s a = Inl e"
        unfolding s1 by (simp add: selected_gene_frame)
      with sel Some show ?thesis by (simp add: resolve_def)
    next
      case Inr2: (Inr r2)
      obtain g gf s2 where r2: "r2 = (g, gf, s2)" by (cases r2)
      from gene_stage_char(2)[OF Inr2[unfolded r2]]
      have sg: "selected_gene s1 a = Inr (g, gf)" by auto
      have res: "resolve s b = Inr (g, gf)"
        using sel Some sg unfolding s1 by (simp add: resolve_def selected_gene_frame)
      from assms Inr r Some Inr2 r2 have "counting_stage h s2 cell umi g gf = Inl e"
        by (simp add: process_bam_bundle_def split: sum.splits prod.splits)
      with counting_stage_char(1)[of h s2 cell umi g gf e] res show ?thesis by auto
    qed
  qed
qed

lemma process_bam_bundle_result:
  "map_sum id fst (process_bam_bundle h s cell umi b) =
     (case resolve s b of
        Inl e \<Rightarrow> Inl e
      | Inr (gene, gf) \<Rightarrow>
          if truthy gene then
            (if gf = [] then Inl IndexError
             else Inr (gene, determine_channels s gf (h (cell, umi) \<notin> uniq s)))
          else Inr (gene, {}))"
proof (cases "process_bam_bundle h s cell umi b")
  case (Inl e)
  from process_bam_bundle_Inl[OF Inl] Inl show ?thesis by auto
next
  case (Inr r)
  obtain gene chs s' where r: "r = ((gene, chs), s')" by (metis prod.exhaust)
  from process_bam_bundle_Inr[OF Inr[unfolded r]] Inr r show ?thesis by auto
qed

text \<open>
  Claim C10. When \<open>process_bam_bundle\<close> returns without a gene (the alignment
  selection or the gene selection has failed), the set of hash values is as before and no
  channel is returned; a later bundle with the same (cell, UMI) pair is processed with the
  same result as if the failed bundle had never been seen, and if the pair was not recorded
  before, the uniqueness test on it still answers true.
\<close>

theorem unresolved_bundle_not_recorded:
  assumes "process_bam_bundle h self cell umi b1 = Inr ((gene, chs), self')"
    and "\<not> truthy gene"
  shows "uniq self' = uniq self \<and> chs = {} \<and>
         map_sum id fst (process_bam_bundle h self' cell umi b2)
           = map_sum id fst (process_bam_bundle h self cell umi b2) \<and>
         (h (cell, umi) \<notin> uniq self \<longrightarrow> fst (observe h (uniq self') cell umi))"
proof -
  from process_bam_bundle_Inr[OF assms(1)] assms(2)
  obtain S where s': "self' = self\<lparr>stats := S, uniq := uniq self\<rparr>" and chs: "chs = {}"
    by auto
  have u: "uniq self' = uniq self" unfolding s' by simp
  have "map_sum id fst (process_bam_bundle h self' cell umi b2)
           = map_sum id fst (process_bam_bundle h self cell umi b2)"
    unfolding process_bam_bundle_result s'
    by (simp add: resolve_frame determine_channels_frame split: sum.splits prod.splits)
  then show ?thesis using u chs by (simp add: fst_observe)
qed

text \<open>
  Scenario B, two alignments with feature \<open>C\<close> for different genes, is such a bundle;
  Scenario A, a single exonic alignment, resolves to a gene.
\<close>

lemma scenario_B_unresolved:
  "process_bam_bundle h default_counter cell umi
      [(''chr1'', ''+'', [''GeneA''], [''C''], 10), (''chr2'', ''+'', [''GeneB''], [''C''], 7)]
    = Inr ((GNone, {}),
           stats_incr ''N_aln_selection_failed'' (stats_incr ''N_aln_multi'' default_counter))"
  by (simp add: process_bam_bundle_def alignment_stage_def call_select_alignment_def
        select_alignment_by_priority_def get_prio_def dict_get_def stats_incr_def
        default_counter_def DefaultCounter_init_def default_alignment_priorities_def)

lemma scenario_A_result:
  "map_sum id fst (process_bam_bundle h default_counter cell umi
      [(''chr1'', ''+'', [''GeneA''], [''C''], 10)])
    = Inr (GStr ''GeneA'', {''counts'', ''exonic_counts'', ''exonic_reads''})"
proof -
  have r: "resolve default_counter [(''chr1'', ''+'', [''GeneA''], [''C''], 10)]
             = Inr (GStr ''GeneA'', [''C''])"
    by (simp add: resolve_def selected_alignment_def selected_gene_def)
  have u: "uniq default_counter = {}"
    by (simp add: default_counter_def DefaultCounter_init_def)
  have d: "determine_channels default_counter [''C''] True
             = {''counts'', ''exonic_counts'', ''exonic_reads''}"
    by (auto simp: determine_channels_def post_policy_channels_def default_counter_def
          DefaultCounter_init_def default_exonic_tags_def default_intronic_tags_def
          default_X_counts_def Let_def)
  show ?thesis by (simp add: process_bam_bundle_result r u d)
qed

text \<open>The theorem at Scenario B followed by Scenario A with the same cell and UMI.\<close>

theorem unresolved_bundle_not_recorded_witness:
  "uniq (stats_incr ''N_aln_selection_failed'' (stats_incr ''N_aln_multi'' default_counter)) = {}
   \<and> map_sum id fst (process_bam_bundle poly_hash
        (stats_incr ''N_aln_selection_failed'' (stats_incr ''N_aln_multi'' default_counter))
        ''AAAA'' ''UMI1'' [(''chr1'', ''+'', [''GeneA''], [''C''], 10)])
      = Inr (GStr ''GeneA'', {''counts'', ''exonic_counts'', ''exonic_reads''})
   \<and> fst (observe poly_hash
        (uniq (stats_incr ''N_aln_selection_failed'' (stats_incr ''N_aln_multi'' default_counter)))
        ''AAAA'' ''UMI1'')"
proof -
  have u: "uniq default_counter = {}"
    by (simp add: default_counter_def DefaultCounter_init_def)
  have f: "\<not> truthy GNone" by simp
  from unresolved_bundle_not_recorded[OF scenario_B_unresolved f,
         of poly_hash "''AAAA''" "''UMI1''" "[(''chr1'', ''+'', [''GeneA''], [''C''], 10)]"]
  show ?thesis by (simp add: u scenario_A_result fst_observe)
qed


subsection \<open>Two different (cell, UMI) pairs with one hash value\<close>

text \<open>
  For string pairs every hash function has a collision, and the second pair of a collision
  is answered as a repetition of the first.
\<close>

lemma observe_all_string_collision:
  fixes h :: "string \<times> string \<Rightarrow> py_hash"
  shows "\<exists>p q. p \<noteq> q \<and> observe_all h {} [p, q] = [True, False]"
proof -
  from hash_not_injective[of h] obtain p q where pq: "p \<noteq> q" "h p = h q" by blast
  obtain c u c' u' where "p = (c, u)" "q = (c', u')" by (cases p, cases q) blast
  with pq have "observe_all h {} [p, q] = [True, False]"
    by (simp add: fst_observe snd_observe)
  with pq show ?thesis by blast
qed






subsection \<open>Gene selection by priority\<close>

text \<open>
  An alignment with the genes \<open>A\<close> (intronic) and \<open>B\<close> (coding exon): \<open>B\<close> alone
  has the top priority. The method returns the list \<open>[B]\<close>, and with it the features
  collected for \<open>gn[0] = A\<close>.
\<close>

lemma select_gene_by_priority_A_B:
  "select_gene_by_priority default_counter (''chr1'', ''+'', [''A'', ''B''], [''I'', ''C''], 0)
     = Inr (GList [''B''], [''I''])"
  by (simp add: select_gene_by_priority_def default_counter_def DefaultCounter_init_def
        default_gene_priorities_def dict_get_def Let_def)

text \<open>In the loop of \<open>main\<close> the list cannot be used as a key, whatever the store.\<close>

lemma main_step_A_B:
  "main_step h (default_counter, dge)
      (cell, umi, [(''chr1'', ''+'', [''A'', ''B''], [''I'', ''C''], 0)]) = Inl TypeError"
proof -
  have sel: "select_gene default_counter = Gene_priority"
    by (simp add: default_counter_def DefaultCounter_init_def)
  have r: "resolve default_counter [(''chr1'', ''+'', [''A'', ''B''], [''I'', ''C''], 0)]
             = Inr (GList [''B''], [''I''])"
    by (simp add: resolve_def selected_alignment_def selected_gene_def call_select_gene_def
          sel select_gene_by_priority_A_B)
  have "map_sum id fst (process_bam_bundle h default_counter cell umi
            [(''chr1'', ''+'', [''A'', ''B''], [''I'', ''C''], 0)])
          = Inr (GList [''B''], determine_channels default_counter [''I'']
                                  (h (cell, umi) \<notin> uniq default_counter))"
    by (simp add: process_bam_bundle_result r)
  then obtain chs c' where "process_bam_bundle h default_counter cell umi
            [(''chr1'', ''+'', [''A'', ''B''], [''I'', ''C''], 0)] = Inr ((GList [''B''], chs), c')"
    by (cases "process_bam_bundle h default_counter cell umi
            [(''chr1'', ''+'', [''A'', ''B''], [''I'', ''C''], 0)]") auto
  then show ?thesis by (simp add: main_step_def)
qed

text \<open>
  Claim C1 at this alignment. The claim asks for the string \<open>B\<close> together with the
  features of \<open>B\<close>, that is \<open>[C]\<close>; the method returns a list in place of the string,
  the intronic feature of the other gene, and the read stops the program.
\<close>

theorem select_gene_by_priority_failing_input:
  "select_gene_by_priority default_counter (''chr1'', ''+'', [''A'', ''B''], [''I'', ''C''], 0)
     = Inr (GList [''B''], [''I''])
   \<and> main_step h (default_counter, dge)
        (cell, umi, [(''chr1'', ''+'', [''A'', ''B''], [''I'', ''C''], 0)]) = Inl TypeError"
  using select_gene_by_priority_A_B main_step_A_B by (rule conjI)

subsection \<open>The counting loop\<close>

text \<open>One call of \<open>add_read\<close> adds one to the total of each channel of the set.\<close>

lemma dict_get_incr_channels:
  "dict_get (incr_channels chs d) c 0 = dict_get d c 0 + (if c \<in> chs then 1 else 0)"
  by (simp add: incr_channels_def dict_get_def)

lemma sum_counts_modify:
  "sum_list (map (\<lambda>kd. dict_get (snd kd) c 0) (counts_modify key (incr_channels chs) items))
     = sum_list (map (\<lambda>kd. dict_get (snd kd) c 0) items) + (if c \<in> chs then 1 else 0)"
  by (induction items) (auto simp: dict_get_incr_channels, simp add: dict_get_def)

lemma channel_total_add_read:
  "channel_total (add_read dge gene cell chs) c
     = channel_total dge c + (if c \<in> chs then 1 else 0)"
  by (auto simp: add_read_def channel_total_def Let_def sum_counts_modify)

text \<open>
  The channels that \<open>determine_channels\<close> can return; the two \<open>_counts\<close>
  channels need a true uniqueness flag.
\<close>

lemma determine_channels_loop_mem:
  "determine_channels_loop s u gf (chs0, e0, i0) = (chs, e, i) \<Longrightarrow> x \<in> chs \<Longrightarrow>
   x \<in> chs0 \<or> x = ''exonic_reads'' \<or> x = ''intronic_reads'' \<or>
   (u \<and> (x = ''exonic_counts'' \<or> x = ''intronic_counts''))"
proof (induction gf arbitrary: chs0 e0 i0)
  case Nil
  then show ?case by simp
next
  case (Cons f gf)
  show ?case
  proof (cases "f \<in> exonic_set s")
    case True
    with Cons.prems Cons.IH[of _ True i0] show ?thesis
      by (cases u) fastforce+
  next
    case False
    show ?thesis
    proof (cases "f \<in> intronic_set s")
      case True
      with False Cons.prems Cons.IH[of _ e0 True] show ?thesis
        by (cases u) fastforce+
    next
      case f2: False
      with False Cons.prems Cons.IH[of chs0 e0 i0] show ?thesis by simp
    qed
  qed
qed

lemma post_policy_channels_mem:
  assumes "x \<in> post_policy_channels s gf u"
  shows "x = ''exonic_reads'' \<or> x = ''intronic_reads'' \<or>
         (u \<and> (x = ''exonic_counts'' \<or> x = ''intronic_counts''))"
proof -
  obtain chs e i where L: "determine_channels_loop s u gf ({}, False, False) = (chs, e, i)"
    by (metis prod_cases3)
  have "post_policy_channels s gf u \<subseteq> chs"
    by (cases "exon_intron_disambiguation_func s") (auto simp: post_policy_channels_def L)
  with assms have "x \<in> chs" by blast
  from determine_channels_loop_mem[OF L this] show ?thesis by simp
qed

lemma if_insert_subset: "(if b then insert a A else A) \<subseteq> insert a A"
  by auto

lemma determine_channels_mem:
  assumes "x \<in> determine_channels s gf u"
  shows "x = ''counts'' \<or> x = ''exonic_reads'' \<or> x = ''intronic_reads'' \<or>
         (u \<and> (x = ''exonic_counts'' \<or> x = ''intronic_counts''))"
proof -
  have "determine_channels s gf u \<subseteq> insert ''counts'' (post_policy_channels s gf u)"
    unfolding determine_channels_def Let_def by (rule if_insert_subset)
  with assms have "x \<in> insert ''counts'' (post_policy_channels s gf u)" by (rule rev_subsetD)
  then show ?thesis
  proof (rule insertE)
    assume "x = ''counts''"
    then show ?thesis by (rule disjI1)
  next
    assume "x \<in> post_policy_channels s gf u"
    from post_policy_channels_mem[OF this] show ?thesis by (rule disjI2)
  qed
qed


lemma counts_suffix_names:
  "p @ ''_counts'' \<noteq> ''counts''"
  "p @ ''_counts'' \<noteq> ''exonic_reads''"
  "p @ ''_counts'' \<noteq> ''intronic_reads''"
proof -
  have ne: "p @ ''_counts'' \<noteq> x" if "rev x \<noteq> ''stnuoc_'' @ rev p" for x
    using that by auto
  show "p @ ''_counts'' \<noteq> ''counts''" by (rule ne) simp
  show "p @ ''_counts'' \<noteq> ''exonic_reads''" by (rule ne) simp
  show "p @ ''_counts'' \<noteq> ''intronic_reads''" by (rule ne) simp
qed

lemma disj4_elim: "A \<or> B \<or> C \<or> D \<Longrightarrow> \<not> A \<Longrightarrow> \<not> B \<Longrightarrow> \<not> C \<Longrightarrow> D"
  by blast

lemma determine_channels_counts_flag:
  assumes "p @ ''_counts'' \<in> determine_channels s gf u"
  shows u
proof -
  have "u \<and> (p @ ''_counts'' = ''exonic_counts'' \<or> p @ ''_counts'' = ''intronic_counts'')"
    by (rule disj4_elim[OF determine_channels_mem[OF assms] counts_suffix_names])
  then show u by (rule conjunct1)
qed

text \<open>Along the loop, every total grows by one for each bundle that produced the channel,
  and the \<open>_counts\<close> totals grow only together with the set of hash values.\<close>

lemma main_step_Inr:
  assumes "main_step h (counter, dge) (cell, umi, b) = Inr (counter', dge')"
  shows "\<exists>gene chs. process_bam_bundle h counter cell umi b = Inr ((gene, chs), counter') \<and>
           (\<forall>c. channel_total dge' c
                  = channel_total dge c + (if truthy gene \<and> c \<in> chs then 1 else 0))"
proof (cases "process_bam_bundle h counter cell umi b")
  case (Inl e)
  with assms show ?thesis by (simp add: main_step_def)
next
  case (Inr r)
  obtain gene chs c1 where r: "r = ((gene, chs), c1)" by (metis prod.exhaust)
  show ?thesis
  proof (cases gene)
    case GNone
    with assms Inr r show ?thesis by (simp add: main_step_def)
  next
    case (GStr g)
    with assms Inr r show ?thesis
      by (auto simp: main_step_def channel_total_add_read)
  next
    case (GList l)
    with assms Inr r show ?thesis by (simp add: main_step_def)
  qed
qed

lemma main_loop_totals:
  "main_loop h (counter, dge) bs = Inr (counter', dge') \<Longrightarrow>
   channel_total dge' c = channel_total dge c
     + length (filter (\<lambda>r. truthy (fst r) \<and> c \<in> snd r) (bundle_results h counter bs))"
proof (induction bs arbitrary: counter dge)
  case Nil
  then show ?case by simp
next
  case (Cons b bs)
  obtain cell umi al where b: "b = (cell, umi, al)" by (metis prod_cases3)
  from Cons.prems obtain c1 d1 where
    step: "main_step h (counter, dge) (cell, umi, al) = Inr (c1, d1)"
    and rest: "main_loop h (c1, d1) bs = Inr (counter', dge')"
    by (auto simp: b split: sum.splits)
  from main_step_Inr[OF step] obtain gene chs where
    p: "process_bam_bundle h counter cell umi al = Inr ((gene, chs), c1)" and
    t: "channel_total d1 c = channel_total dge c + (if truthy gene \<and> c \<in> chs then 1 else 0)"
    by blast
  from Cons.IH[OF rest] t p show ?case by (simp add: b)
qed

lemma card_diff_chain:
  assumes "U0 \<subseteq> U1" "U1 \<subseteq> U2" "finite (U2 - U0)"
  shows "card (U2 - U0) = card (U1 - U0) + card (U2 - U1)"
proof -
  have eq: "U2 - U0 = (U1 - U0) \<union> (U2 - U1)" using assms(1,2) by blast
  have f1: "finite (U1 - U0)" and f2: "finite (U2 - U1)"
    using assms by (auto intro: finite_subset[OF _ assms(3)])
  have "card ((U1 - U0) \<union> (U2 - U1)) = card (U1 - U0) + card (U2 - U1)"
    by (rule card_Un_disjoint[OF f1 f2]) blast
  with eq show ?thesis by simp
qed

lemma main_step_counts:
  assumes "main_step h (counter, dge) (cell, umi, b) = Inr (counter', dge')"
  shows "uniq counter \<subseteq> uniq counter' \<and> uniq counter' \<subseteq> insert (h (cell, umi)) (uniq counter) \<and>
         channel_total dge' (p @ ''_counts'')
           \<le> channel_total dge (p @ ''_counts'') + card (uniq counter' - uniq counter)"
proof -
  from main_step_Inr[OF assms] obtain gene chs where
    pr: "process_bam_bundle h counter cell umi b = Inr ((gene, chs), counter')" and
    t: "channel_total dge' (p @ ''_counts'') = channel_total dge (p @ ''_counts'')
          + (if truthy gene \<and> p @ ''_counts'' \<in> chs then 1 else 0)"
    by blast
  from process_bam_bundle_Inr[OF pr] obtain gf where
    u: "uniq counter' = (if truthy gene then insert (h (cell, umi)) (uniq counter) else uniq counter)"
    and c: "truthy gene \<Longrightarrow> chs = determine_channels counter gf (h (cell, umi) \<notin> uniq counter)"
    by (auto split: if_splits)
  have sub: "uniq counter \<subseteq> uniq counter'" "uniq counter' \<subseteq> insert (h (cell, umi)) (uniq counter)"
    unfolding u by auto
  show ?thesis
  proof (cases "truthy gene \<and> p @ ''_counts'' \<in> chs")
    case True
    then have "h (cell, umi) \<notin> uniq counter"
      using c determine_channels_counts_flag[of p counter gf "h (cell, umi) \<notin> uniq counter"] by simp
    then have "uniq counter' - uniq counter = {h (cell, umi)}" using True unfolding u by auto
    then show ?thesis using sub t True by simp
  next
    case False
    then have "channel_total dge' (p @ ''_counts'') = channel_total dge (p @ ''_counts'')"
      using t by simp
    then show ?thesis using sub by simp
  qed
qed

lemma main_loop_counts:
  "main_loop h (counter, dge) bs = Inr (counter', dge') \<Longrightarrow>
   uniq counter \<subseteq> uniq counter' \<and> uniq counter' \<subseteq> uniq counter \<union> h ` set (map cell_umi bs) \<and>
   channel_total dge' (p @ ''_counts'')
     \<le> channel_total dge (p @ ''_counts'') + card (uniq counter' - uniq counter)"
proof (induction bs arbitrary: counter dge)
  case Nil
  then show ?case by simp
next
  case (Cons b bs)
  obtain cell umi al where b: "b = (cell, umi, al)" by (metis prod_cases3)
  from Cons.prems obtain c1 d1 where
    step: "main_step h (counter, dge) (cell, umi, al) = Inr (c1, d1)"
    and rest: "main_loop h (c1, d1) bs = Inr (counter', dge')"
    by (auto simp: b split: sum.splits)
  from main_step_counts[OF step, of p]
  have s1: "uniq counter \<subseteq> uniq c1" and s2: "uniq c1 \<subseteq> insert (h (cell, umi)) (uniq counter)"
    and s3: "channel_total d1 (p @ ''_counts'')
               \<le> channel_total dge (p @ ''_counts'') + card (uniq c1 - uniq counter)" by auto
  from Cons.IH[OF rest]
  have r1: "uniq c1 \<subseteq> uniq counter'" and r2: "uniq counter' \<subseteq> uniq c1 \<union> h ` set (map cell_umi bs)"
    and r3: "channel_total dge' (p @ ''_counts'')
               \<le> channel_total d1 (p @ ''_counts'') + card (uniq counter' - uniq c1)" by auto
  have cu: "cell_umi b = (cell, umi)" by (simp add: b cell_umi_def)
  have sub: "uniq counter' \<subseteq> uniq counter \<union> h ` set (map cell_umi (b # bs))"
    using s2 r2 cu by auto
  then have "uniq counter' - uniq counter \<subseteq> h ` set (map cell_umi (b # bs))" by blast
  then have fin: "finite (uniq counter' - uniq counter)"
    by (rule finite_subset) simp
  from card_diff_chain[OF s1 r1 fin] s3 r3
  have "channel_total dge' (p @ ''_counts'')
          \<le> channel_total dge (p @ ''_counts'') + card (uniq counter' - uniq counter)" by simp
  with s1 r1 sub show ?case by blast
qed

lemma channel_total_DGE_init: "channel_total (DGE_init chs allowlist) c = 0"
  by (simp add: channel_total_def DGE_init_def)

lemma length_bundle_results: "length (bundle_results h counter bs) \<le> length bs"
proof (induction bs arbitrary: counter)
  case Nil
  then show ?case by simp
next
  case (Cons b bs)
  obtain cell umi al where b: "b = (cell, umi, al)" by (metis prod_cases3)
  show ?case using Cons.IH by (auto simp: b split: sum.splits)
qed

text \<open>
  Claim C6. After a run of the loop over a finite sequence of bundles, started with an
  empty store, the total of a channel \<open>*_reads\<close> is at most the number of bundles that
  were resolved to a gene and produced that channel, and the total of a channel
  \<open>*_counts\<close> is at most the number of distinct (cell, UMI) pairs of the bundles.
\<close>

theorem channel_totals_bounded:
  assumes "main_loop h (counter, DGE_init chs allowlist) bundles = Inr (counter', dge')"
  shows "channel_total dge' (p @ ''_reads'')
           \<le> length (filter (\<lambda>r. truthy (fst r) \<and> p @ ''_reads'' \<in> snd r)
                        (bundle_results h counter bundles))
       \<and> channel_total dge' (q @ ''_counts'') \<le> card (set (map cell_umi bundles))"
proof -
  have reads: "channel_total dge' (p @ ''_reads'')
           \<le> length (filter (\<lambda>r. truthy (fst r) \<and> p @ ''_reads'' \<in> snd r)
                        (bundle_results h counter bundles))"
    using main_loop_totals[OF assms, of "p @ ''_reads''"] by (simp add: channel_total_DGE_init)
  from main_loop_counts[OF assms, of q]
  have sub: "uniq counter' \<subseteq> uniq counter \<union> h ` set (map cell_umi bundles)"
    and le: "channel_total dge' (q @ ''_counts'') \<le> card (uniq counter' - uniq counter)"
    by (simp_all add: channel_total_DGE_init)
  from sub have "uniq counter' - uniq counter \<subseteq> h ` set (map cell_umi bundles)" by blast
  then have "card (uniq counter' - uniq counter) \<le> card (h ` set (map cell_umi bundles))"
    by (rule card_mono[rotated]) simp
  also have "\<dots> \<le> card (set (map cell_umi bundles))" by (rule card_image_le) simp
  finally have "channel_total dge' (q @ ''_counts'') \<le> card (set (map cell_umi bundles))"
    using le by simp
  with reads show ?thesis by (rule conjI)
qed

text \<open>Scenario D, the same read twice, runs through the loop without an exception.\<close>

lemma main_step_resolved:
  assumes "resolve c b = Inr (GStr g, gf)" and "gf \<noteq> []"
  shows "\<exists>c' d'. main_step h (c, d) (cell, umi, b) = Inr (c', d') \<and> resolve c' = resolve c"
proof -
  have "map_sum id fst (process_bam_bundle h c cell umi b)
          = Inr (GStr g, if g \<noteq> [] then determine_channels c gf (h (cell, umi) \<notin> uniq c) else {})"
    using assms by (simp add: process_bam_bundle_result)
  then obtain chs c' where p: "process_bam_bundle h c cell umi b = Inr ((GStr g, chs), c')"
    by (cases "process_bam_bundle h c cell umi b") auto
  from process_bam_bundle_Inr[OF p] obtain S U where "c' = c\<lparr>stats := S, uniq := U\<rparr>"
    by blast
  then have "resolve c' = resolve c"
    by (auto simp: resolve_frame)
  moreover have "\<exists>d'. main_step h (c, d) (cell, umi, b) = Inr (c', d')"
    by (simp add: main_step_def p)
  ultimately show ?thesis by blast
qed

lemma scenario_D_runs:
  "\<exists>c' d'. main_loop poly_hash (default_counter, DGE_init default_channels None)
      [(''AAAA'', ''UMI1'', [(''chr1'', ''+'', [''GeneA''], [''C''], 10)]),
       (''AAAA'', ''UMI1'', [(''chr1'', ''+'', [''GeneA''], [''C''], 10)])] = Inr (c', d')"
proof -
  let ?b = "[(''chr1'', ''+'', [''GeneA''], [''C''], 10)] :: alignment list"
  have r: "resolve default_counter ?b = Inr (GStr ''GeneA'', [''C''])"
    by (simp add: resolve_def selected_alignment_def selected_gene_def)
  have ne: "[''C''] \<noteq> ([] :: string list)" by simp
  from main_step_resolved[OF r ne, where h = poly_hash and umi = "''UMI1''" and cell = "''AAAA''"
         and d = "DGE_init default_channels None"]
  obtain c1 d1 where
    s1: "main_step poly_hash (default_counter, DGE_init default_channels None)
           (''AAAA'', ''UMI1'', ?b) = Inr (c1, d1)"
    and r1: "resolve c1 = resolve default_counter" by blast
  have r': "resolve c1 ?b = Inr (GStr ''GeneA'', [''C''])" using r r1 by simp
  from main_step_resolved[OF r' ne, where h = poly_hash and umi = "''UMI1''" and cell = "''AAAA''"
         and d = d1]
  obtain c2 d2 where
    s2: "main_step poly_hash (c1, d1) (''AAAA'', ''UMI1'', ?b) = Inr (c2, d2)" by blast
  show ?thesis by (simp add: s1 s2)
qed

text \<open>The theorem at Scenario D, for the channels \<open>exonic_reads\<close> and
  \<open>exonic_counts\<close>.\<close>

theorem channel_totals_bounded_witness:
  "channel_total (snd (projr (main_loop poly_hash (default_counter, DGE_init default_channels None)
      [(''AAAA'', ''UMI1'', [(''chr1'', ''+'', [''GeneA''], [''C''], 10)]),
       (''AAAA'', ''UMI1'', [(''chr1'', ''+'', [''GeneA''], [''C''], 10)])]))) ''exonic_reads'' \<le> 2
   \<and> channel_total (snd (projr (main_loop poly_hash (default_counter, DGE_init default_channels None)
      [(''AAAA'', ''UMI1'', [(''chr1'', ''+'', [''GeneA''], [''C''], 10)]),
       (''AAAA'', ''UMI1'', [(''chr1'', ''+'', [''GeneA''], [''C''], 10)])]))) ''exonic_counts'' \<le> 1"
proof -
  let ?bs = "[(''AAAA'', ''UMI1'', [(''chr1'', ''+'', [''GeneA''], [''C''], 10)]),
       (''AAAA'', ''UMI1'', [(''chr1'', ''+'', [''GeneA''], [''C''], 10)])]
       :: (string \<times> string \<times> alignment list) list"
  from scenario_D_runs obtain c' d' where
    run: "main_loop poly_hash (default_counter, DGE_init default_channels None) ?bs = Inr (c', d')"
    by blast
  have "length (filter (\<lambda>r. truthy (fst r) \<and> ''exonic'' @ ''_reads'' \<in> snd r)
                        (bundle_results poly_hash default_counter ?bs)) \<le> length ?bs"
    by (rule order_trans[OF length_filter_le length_bundle_results])
  also have "length ?bs = 2" by simp
  finally have len: "length (filter (\<lambda>r. truthy (fst r) \<and> ''exonic'' @ ''_reads'' \<in> snd r)
                        (bundle_results poly_hash default_counter ?bs)) \<le> 2" .
  have crd: "card (set (map cell_umi ?bs)) = 1" by (simp add: cell_umi_def)
  from channel_totals_bounded[OF run, of "''exonic''" "''exonic''"]
  have "channel_total d' (''exonic'' @ ''_reads'') \<le> 2"
    and "channel_total d' (''exonic'' @ ''_counts'') \<le> 1"
    using len unfolding crd by (blast intro: order_trans)+
  then show ?thesis unfolding run by simp
qed

subsection \<open>Building the matrices twice\<close>

text \<open>
  \<open>make_sparse_arrays\<close> changes the store: reading a channel that a key has not
  counted stores 0 for it. The changed dictionaries agree with the old ones, and the result
  of the method depends on the dictionaries only up to this agreement.
\<close>

lemma defaultdict_read_value: "fst (defaultdict_read d c) = dict_get d c 0"
  by (simp add: defaultdict_read_def dict_get_def split: option.splits)

lemma defaultdict_read_equiv: "dict_equiv (snd (defaultdict_read d c)) d"
  by (auto simp: defaultdict_read_def dict_equiv_def dict_get_def split: option.splits)

lemma dict_equiv_refl: "dict_equiv d d"
  by (simp add: dict_equiv_def)

lemma dict_equiv_trans: "dict_equiv a b \<Longrightarrow> dict_equiv b c \<Longrightarrow> dict_equiv a c"
  by (simp add: dict_equiv_def)

lemma dict_equiv_sym: "dict_equiv a b \<Longrightarrow> dict_equiv b a"
  by (simp add: dict_equiv_def)

lemma channel_loop_equiv:
  "dict_equiv d1 d2 \<Longrightarrow>
   snd (channel_loop chs d1 cbc) = snd (channel_loop chs d2 cbc) \<and>
   dict_equiv (fst (channel_loop chs d1 cbc)) d1"
proof (induction chs arbitrary: d1 d2 cbc)
  case Nil
  then show ?case by (simp add: dict_equiv_refl)
next
  case (Cons c chs)
  obtain v1 d1' where r1: "defaultdict_read d1 c = (v1, d1')" by (cases "defaultdict_read d1 c")
  obtain v2 d2' where r2: "defaultdict_read d2 c = (v2, d2')" by (cases "defaultdict_read d2 c")
  have v: "v2 = v1"
    using defaultdict_read_value[of d1 c] defaultdict_read_value[of d2 c] r1 r2 Cons.prems
    by (simp add: dict_equiv_def)
  have e1: "dict_equiv d1' d1" using defaultdict_read_equiv[of d1 c] r1 by simp
  have e2: "dict_equiv d2' d2" using defaultdict_read_equiv[of d2 c] r2 by simp
  have e: "dict_equiv d1' d2'"
    using e1 Cons.prems e2 by (blast intro: dict_equiv_trans dict_equiv_sym)
  have step1: "channel_loop (c # chs) d1 cbc = channel_loop chs d1' (cbc(c := cbc c @ [v1]))"
    by (simp add: r1)
  have step2: "channel_loop (c # chs) d2 cbc = channel_loop chs d2' (cbc(c := cbc c @ [v1]))"
    by (simp add: r2 v)
  from Cons.IH[OF e, of "cbc(c := cbc c @ [v1])"] e1
  show ?case unfolding step1 step2 by (blast intro: dict_equiv_trans)
qed

lemma items_loop_Cons:
  "items_loop chs ic ig (((gene, cell), d) # rest) (cbc, row, col) =
     (case ic cell of
        None \<Rightarrow> (Inl KeyError, ((gene, cell), fst (channel_loop chs d cbc)) # rest)
      | Some r \<Rightarrow>
          (case ig gene of
             None \<Rightarrow> (Inl KeyError, ((gene, cell), fst (channel_loop chs d cbc)) # rest)
           | Some c \<Rightarrow>
               (fst (items_loop chs ic ig rest (snd (channel_loop chs d cbc), row @ [r], col @ [c])),
                ((gene, cell), fst (channel_loop chs d cbc))
                  # snd (items_loop chs ic ig rest
                           (snd (channel_loop chs d cbc), row @ [r], col @ [c])))))"
  by (simp split: prod.splits option.splits)

lemma items_loop_equiv:
  "items_equiv it1 it2 \<Longrightarrow>
   fst (items_loop chs ic ig it1 acc) = fst (items_loop chs ic ig it2 acc) \<and>
   items_equiv (snd (items_loop chs ic ig it1 acc)) it1"
  unfolding items_equiv_def
proof (induction it1 it2 arbitrary: acc rule: list_all2_induct)
  case Nil
  then show ?case by simp
next
  case (Cons x xs y ys)
  let ?R = "\<lambda>x y. fst x = fst y \<and> dict_equiv (snd x) (snd (y :: (string \<times> string) \<times> channel_dict))"
  obtain gene cell d1 where x: "x = ((gene, cell), d1)" by (metis prod.exhaust)
  obtain d2 where y: "y = ((gene, cell), d2)" using Cons.hyps(1) x by (cases y) auto
  obtain cbc row col where acc: "acc = (cbc, row, col)" by (metis prod_cases3)
  have de: "dict_equiv d1 d2" using Cons.hyps(1) x y by simp
  from channel_loop_equiv[OF de, of chs cbc]
  have c: "snd (channel_loop chs d2 cbc) = snd (channel_loop chs d1 cbc)"
    and e: "dict_equiv (fst (channel_loop chs d1 cbc)) d1" by auto
  have refl: "list_all2 ?R xs xs"
    by (simp add: list_all2_refl dict_equiv_refl)
  show ?case
  proof (cases "ic cell")
    case None
    then show ?thesis using e refl by (simp add: x y acc items_loop_Cons del: items_loop.simps)
  next
    case (Some r)
    show ?thesis
    proof (cases "ig gene")
      case None
      then show ?thesis using Some e refl by (simp add: x y acc items_loop_Cons del: items_loop.simps)
    next
      case Some2: (Some cc)
      from Cons.IH[of "(snd (channel_loop chs d1 cbc), row @ [r], col @ [cc])"]
      show ?thesis using Some Some2 e by (simp add: x y acc items_loop_Cons c del: items_loop.simps)
    qed
  qed
qed

lemma make_sparse_arrays_store:
  "snd (make_sparse_arrays s) =
     s\<lparr>counts := snd (items_loop (channels s)
          (fst (index_loop (sorted_list_of_set (DGE_cells s)) (Map.empty, [])))
          (fst (index_loop (sorted_list_of_set (DGE_genes s)) (Map.empty, [])))
          (counts s) (\<lambda>_. [], [], []))\<rparr>"
  by (simp add: make_sparse_arrays_def split: prod.splits sum.splits)

lemma make_sparse_arrays_cong:
  assumes "channels s1 = channels s2" "DGE_cells s1 = DGE_cells s2" "DGE_genes s1 = DGE_genes s2"
    and "items_equiv (counts s1) (counts s2)"
  shows "fst (make_sparse_arrays s1) = fst (make_sparse_arrays s2)"
proof -
  obtain ic obs where ic: "index_loop (sorted_list_of_set (DGE_cells s2)) (Map.empty, []) = (ic, obs)"
    by (metis prod.exhaust)
  obtain ig var where ig: "index_loop (sorted_list_of_set (DGE_genes s2)) (Map.empty, []) = (ig, var)"
    by (metis prod.exhaust)
  from items_loop_equiv[OF assms(4), of "channels s2" ic ig "(\<lambda>_. [], [], [])"]
  have f: "fst (items_loop (channels s2) ic ig (counts s1) (\<lambda>_. [], [], []))
         = fst (items_loop (channels s2) ic ig (counts s2) (\<lambda>_. [], [], []))" by simp
  obtain r1 i1 where l1: "items_loop (channels s2) ic ig (counts s1) (\<lambda>_. [], [], []) = (r1, i1)"
    by (metis prod.exhaust)
  obtain r2 i2 where l2: "items_loop (channels s2) ic ig (counts s2) (\<lambda>_. [], [], []) = (r2, i2)"
    by (metis prod.exhaust)
  have r: "r1 = r2" using f l1 l2 by simp
  show ?thesis
    by (simp add: make_sparse_arrays_def assms(1,2,3) ic ig l1 l2 r split: sum.splits prod.splits)
qed

text \<open>
  Claim C9. Running \<open>make_sparse_arrays\<close> a second time, on the store that the first
  run has left, gives the same outcome as the first run: the same matrices for the same
  channels, the same list of cells and the same list of genes (or the same exception).
\<close>

theorem make_sparse_arrays_idempotent:
  "fst (make_sparse_arrays (snd (make_sparse_arrays self))) = fst (make_sparse_arrays self)"
proof (rule make_sparse_arrays_cong)
  show "channels (snd (make_sparse_arrays self)) = channels self"
    by (simp add: make_sparse_arrays_store)
  show "DGE_cells (snd (make_sparse_arrays self)) = DGE_cells self"
    by (simp add: make_sparse_arrays_store)
  show "DGE_genes (snd (make_sparse_arrays self)) = DGE_genes self"
    by (simp add: make_sparse_arrays_store)
  have "items_equiv (counts self) (counts self)"
    by (simp add: items_equiv_def list_all2_refl dict_equiv_refl)
  from items_loop_equiv[OF this]
  show "items_equiv (counts (snd (make_sparse_arrays self))) (counts self)"
    by (simp add: make_sparse_arrays_store)
qed

text \<open>
  A store after one read, with a channel that received nothing: the first run succeeds, and
  it changes the store, since the unused channel is now recorded with the count 0.
\<close>

lemma make_sparse_arrays_one_read:
  "fst (make_sparse_arrays (add_read (DGE_init [''counts'', ''exonic_reads'', ''intronic_reads''] None)
          ''GeneA'' ''AAAA'' {''exonic_reads'', ''counts''}))
     = Inr ([(''counts'', \<lparr>shape = (1, 1), triplets = [((0, 0), 1)]\<rparr>),
             (''exonic_reads'', \<lparr>shape = (1, 1), triplets = [((0, 0), 1)]\<rparr>),
             (''intronic_reads'', \<lparr>shape = (1, 1), triplets = [((0, 0), 0)]\<rparr>)],
            [''AAAA''], [''GeneA''])"
  by (simp add: make_sparse_arrays_def add_read_def DGE_init_def load_list_def Let_def
        incr_channels_def defaultdict_read_def dict_get_def csr_matrix_def)

lemma make_sparse_arrays_changes_store:
  "snd (hd (counts (add_read (DGE_init [''counts'', ''exonic_reads'', ''intronic_reads''] None)
          ''GeneA'' ''AAAA'' {''exonic_reads'', ''counts''}))) ''intronic_reads'' = None
   \<and> snd (hd (counts (snd (make_sparse_arrays
          (add_read (DGE_init [''counts'', ''exonic_reads'', ''intronic_reads''] None)
          ''GeneA'' ''AAAA'' {''exonic_reads'', ''counts''}))))) ''intronic_reads'' = Some 0"
  by (simp add: make_sparse_arrays_def add_read_def DGE_init_def load_list_def Let_def
        incr_channels_def defaultdict_read_def dict_get_def csr_matrix_def)

text \<open>The theorem at this store: the second run returns the matrices of the first.\<close>

theorem make_sparse_arrays_idempotent_witness:
  "fst (make_sparse_arrays (snd (make_sparse_arrays
          (add_read (DGE_init [''counts'', ''exonic_reads'', ''intronic_reads''] None)
          ''GeneA'' ''AAAA'' {''exonic_reads'', ''counts''}))))
     = Inr ([(''counts'', \<lparr>shape = (1, 1), triplets = [((0, 0), 1)]\<rparr>),
             (''exonic_reads'', \<lparr>shape = (1, 1), triplets = [((0, 0), 1)]\<rparr>),
             (''intronic_reads'', \<lparr>shape = (1, 1), triplets = [((0, 0), 0)]\<rparr>)],
            [''AAAA''], [''GeneA''])"
  using make_sparse_arrays_idempotent[of "add_read (DGE_init [''counts'', ''exonic_reads'', ''intronic_reads''] None)
          ''GeneA'' ''AAAA'' {''exonic_reads'', ''counts''}"]
  by (simp only: make_sparse_arrays_one_read)

subsection \<open>Sparse matrices\<close>

text \<open>\<open>add_read\<close> keeps the keys of the store distinct and the observed cells and genes
  equal to those of the keys.\<close>

lemma keys_counts_modify:
  "map fst (counts_modify key f xs) =
     (if key \<in> fst ` set xs then map fst xs else map fst xs @ [key])"
proof (induction xs)
  case Nil
  then show ?case by simp
next
  case (Cons p ps)
  obtain k d where p: "p = (k, d)" by (cases p)
  show ?case
  proof (cases "k = key")
    case True
    then show ?thesis by (simp add: p)
  next
    case False
    then show ?thesis using Cons.IH by (simp add: p)
  qed
qed

lemma store_inv_init: "store_inv (DGE_init chs allowlist)"
  by (simp add: store_inv_def DGE_init_def)

lemma store_inv_add_read:
  assumes "store_inv s"
  shows "store_inv (add_read s gene cell chs)"
proof (cases "chs = {}")
  case True
  with assms show ?thesis by (simp add: add_read_def)
next
  case False
  define cell' where "cell' = (case allowed_bcs s of None \<Rightarrow> cell
                  | Some allowed \<Rightarrow> if allowed \<noteq> {} \<and> cell \<notin> allowed then ''NA'' else cell)"
  note f = add_read_fields[OF False cell'_def, of gene]
  have k: "map fst (counts (add_read s gene cell chs)) =
             (if (gene, cell') \<in> fst ` set (counts s) then map fst (counts s)
              else map fst (counts s) @ [(gene, cell')])"
    unfolding f(3) by (rule keys_counts_modify)
  have ks: "fst ` set (counts (add_read s gene cell chs)) = insert (gene, cell') (fst ` set (counts s))"
    using arg_cong[OF k, of set] by (auto split: if_splits)
  have d: "distinct (map fst (counts (add_read s gene cell chs)))"
    unfolding k using assms by (auto simp: store_inv_def)
  show ?thesis
    unfolding store_inv_def f(1,2) ks using d assms by (simp add: store_inv_def)
qed

text \<open>The numbering loops give every element of a duplicate-free list its position.\<close>

lemma index_loop_snd: "snd (index_loop xs (ind, obs)) = obs @ xs"
  by (induction xs arbitrary: ind obs) auto

lemma index_loop_other:
  "x \<notin> set xs \<Longrightarrow> fst (index_loop xs (ind, obs)) x = ind x"
  by (induction xs arbitrary: ind obs) auto

lemma index_loop_nth:
  "distinct xs \<Longrightarrow> i < length xs \<Longrightarrow>
   fst (index_loop xs (ind, obs)) (xs ! i) = Some (length obs + i)"
proof (induction xs arbitrary: ind obs i)
  case Nil
  then show ?case by simp
next
  case (Cons x xs)
  show ?case
  proof (cases i)
    case 0
    with Cons.prems show ?thesis by (simp add: index_loop_other)
  next
    case (Suc j)
    with Cons.prems have j: "distinct xs" "j < length xs" by simp_all
    from Cons.IH[OF j, of "ind(x \<mapsto> length obs)" "obs @ [x]"]
    show ?thesis by (simp add: Suc del: fun_upd_apply)
  qed
qed

lemma index_loop_dom:
  "fst (index_loop xs (Map.empty, [])) x = None \<longleftrightarrow> x \<notin> set xs"
proof -
  have "fst (index_loop xs (ind, obs)) x = None \<longleftrightarrow> x \<notin> set xs \<and> ind x = None" for ind obs
    by (induction xs arbitrary: ind obs) auto
  then show ?thesis by simp
qed

text \<open>The three lists built from the items, and the matrices built from the lists.\<close>

lemma dict_get_defaultdict_read: "dict_get (snd (defaultdict_read d c)) ch 0 = dict_get d ch 0"
  using defaultdict_read_equiv[of d c] by (simp add: dict_equiv_def)

lemma channel_loop_cbc:
  "distinct chs \<Longrightarrow>
   snd (channel_loop chs d cbc) ch =
     (if ch \<in> set chs then cbc ch @ [dict_get d ch 0] else cbc ch)"
proof (induction chs arbitrary: d cbc)
  case Nil
  then show ?case by simp
next
  case (Cons c chs)
  obtain v d' where r: "defaultdict_read d c = (v, d')" by (cases "defaultdict_read d c")
  have v: "v = dict_get d c 0" using defaultdict_read_value[of d c] r by simp
  have d': "dict_get d' ch 0 = dict_get d ch 0" using dict_get_defaultdict_read[of d c ch] r by simp
  have step: "channel_loop (c # chs) d cbc = channel_loop chs d' (cbc(c := cbc c @ [v]))"
    by (simp add: r)
  from Cons.prems have dc: "distinct chs" and cn: "c \<notin> set chs" by simp_all
  show ?case
    unfolding step Cons.IH[OF dc] using cn by (simp add: v d')
qed

lemma items_loop_ok:
  assumes "distinct chs"
  shows "(\<forall>kd\<in>set items. ic (snd (fst kd)) \<noteq> None \<and> ig (fst (fst kd)) \<noteq> None) \<Longrightarrow>
    fst (items_loop chs ic ig items (cbc, row, col)) =
      Inr (\<lambda>ch. if ch \<in> set chs then cbc ch @ map (\<lambda>kd. dict_get (snd kd) ch 0) items else cbc ch,
           row @ map (\<lambda>kd. the (ic (snd (fst kd)))) items,
           col @ map (\<lambda>kd. the (ig (fst (fst kd)))) items)"
proof (induction items arbitrary: cbc row col)
  case Nil
  then show ?case by (auto intro!: ext)
next
  case (Cons x items)
  obtain gene cell d where x: "x = ((gene, cell), d)" by (metis prod.exhaust)
  from Cons.prems obtain r c where r: "ic cell = Some r" and c: "ig gene = Some c"
    by (auto simp: x)
  have rest: "\<forall>kd\<in>set items. ic (snd (fst kd)) \<noteq> None \<and> ig (fst (fst kd)) \<noteq> None"
    using Cons.prems by simp
  have cbc': "snd (channel_loop chs d cbc) =
                (\<lambda>ch. if ch \<in> set chs then cbc ch @ [dict_get d ch 0] else cbc ch)"
    by (rule ext) (rule channel_loop_cbc[OF assms])
  have "fst (items_loop chs ic ig (x # items) (cbc, row, col)) =
        fst (items_loop chs ic ig items (snd (channel_loop chs d cbc), row @ [r], col @ [c]))"
    by (simp add: x items_loop_Cons r c del: items_loop.simps)
  also have "\<dots> = Inr (\<lambda>ch. if ch \<in> set chs
                              then snd (channel_loop chs d cbc) ch
                                     @ map (\<lambda>kd. dict_get (snd kd) ch 0) items
                              else snd (channel_loop chs d cbc) ch,
           (row @ [r]) @ map (\<lambda>kd. the (ic (snd (fst kd)))) items,
           (col @ [c]) @ map (\<lambda>kd. the (ig (fst (fst kd)))) items)"
    by (rule Cons.IH[OF rest])
  also have "\<dots> = Inr (\<lambda>ch. if ch \<in> set chs
                              then cbc ch @ map (\<lambda>kd. dict_get (snd kd) ch 0) (x # items)
                              else cbc ch,
           row @ map (\<lambda>kd. the (ic (snd (fst kd)))) (x # items),
           col @ map (\<lambda>kd. the (ig (fst (fst kd)))) (x # items))"
    unfolding cbc' by (auto simp: x r c)
  finally show ?case .
qed

lemma ordered_dict_set_new:
  "k \<notin> fst ` set acc \<Longrightarrow> ordered_dict_set k v acc = acc @ [(k, v)]"
  by (induction acc) auto

lemma matrices_loop_ok:
  "distinct chs \<Longrightarrow> set chs \<inter> fst ` set acc = {} \<Longrightarrow>
   (\<forall>ch\<in>set chs. csr_matrix (cbc ch) row col = Inr (m ch)) \<Longrightarrow>
   matrices_loop chs cbc row col acc = Inr (acc @ map (\<lambda>ch. (ch, m ch)) chs)"
proof (induction chs arbitrary: acc)
  case Nil
  then show ?case by simp
next
  case (Cons c chs)
  have new: "c \<notin> fst ` set acc" using Cons.prems(2) by auto
  have disj: "set chs \<inter> fst ` set (acc @ [(c, m c)]) = {}"
    using Cons.prems(1,2) by auto
  have "matrices_loop (c # chs) cbc row col acc
          = matrices_loop chs cbc row col (acc @ [(c, m c)])"
    using Cons.prems(3) by (simp add: ordered_dict_set_new[OF new])
  also have "\<dots> = Inr ((acc @ [(c, m c)]) @ map (\<lambda>ch. (ch, m ch)) chs)"
    using Cons.prems by (intro Cons.IH[OF _ disj]) simp_all
  finally show ?case by simp
qed

text \<open>Entries and shape of a matrix built from these lists.\<close>

lemma filter_key_absent:
  "k \<notin> fst ` set items \<Longrightarrow> filter (\<lambda>kd. fst kd = k) items = []"
  by (induction items) auto

lemma sum_filter_key:
  fixes f :: "'d \<Rightarrow> nat"
  shows "distinct (map fst items) \<Longrightarrow>
    sum_list (map (\<lambda>kd. f (snd kd)) (filter (\<lambda>kd. fst kd = k) items))
      = (case map_of items k of None \<Rightarrow> 0 | Some d \<Rightarrow> f d)"
proof (induction items)
  case Nil
  then show ?case by simp
next
  case (Cons x items)
  obtain k' d where x: "x = (k', d)" by (cases x)
  show ?case
  proof (cases "k' = k")
    case True
    then have "k \<notin> fst ` set items" using Cons.prems by (simp add: x)
    then show ?thesis using True by (simp add: x filter_key_absent)
  next
    case False
    then show ?thesis using Cons by (simp add: x)
  qed
qed

lemma matrix_entry_zip:
  "matrix_entry \<lparr>shape = sh, triplets = zip (zip (map r items) (map c items)) (map v items)\<rparr> i j
     = sum_list (map v (filter (\<lambda>kd. r kd = i \<and> c kd = j) items))"
  by (induction items) (auto simp: matrix_entry_def)

lemma index_eq_iff:
  assumes "distinct obs" "\<forall>i<length obs. ic (obs ! i) = Some i" "x \<in> set obs" "i < length obs"
  shows "the (ic x) = i \<longleftrightarrow> x = obs ! i"
proof -
  from assms(3) obtain k where k: "k < length obs" "obs ! k = x" by (auto simp: in_set_conv_nth)
  then have "the (ic x) = k" using assms(2) by auto
  moreover have "obs ! k = obs ! i \<longleftrightarrow> k = i"
    by (rule nth_eq_iff_index_eq[OF assms(1) k(1) assms(4)])
  ultimately show ?thesis using k(2) by auto
qed

lemma Max_index_rows:
  assumes "distinct obs" "set obs = cellf ` set items" "items \<noteq> []"
    and "\<forall>i<length obs. ic (obs ! i) = Some i"
  shows "Max (set (map (\<lambda>kd. the (ic (cellf kd))) items)) + 1 = length obs"
proof -
  let ?R = "set (map (\<lambda>kd. the (ic (cellf kd))) items)"
  have pos: "0 < length obs" using assms(2,3) by (cases obs) auto
  have sub: "n < length obs" if "n \<in> ?R" for n
  proof -
    from that obtain kd where kd: "kd \<in> set items" "n = the (ic (cellf kd))" by auto
    then have "cellf kd \<in> set obs" using assms(2) by auto
    then obtain k where "k < length obs" "obs ! k = cellf kd" by (auto simp: in_set_conv_nth)
    then show ?thesis using assms(4) kd(2) by auto
  qed
  have top: "length obs - 1 \<in> ?R"
  proof -
    have "obs ! (length obs - 1) \<in> set obs" using pos by simp
    then obtain kd where kd: "kd \<in> set items" "cellf kd = obs ! (length obs - 1)"
      using assms(2) by auto
    have "the (ic (cellf kd)) = length obs - 1" using assms(4) pos kd(2) by simp
    then show ?thesis using kd(1) by force
  qed
  have "Max ?R = length obs - 1"
  proof (rule Max_eqI)
    show "finite ?R" by simp
    show "y \<le> length obs - 1" if "y \<in> ?R" for y using sub[OF that] by simp
    show "length obs - 1 \<in> ?R" by (rule top)
  qed
  then show ?thesis using pos by simp
qed

text \<open>
  For a store built by \<open>add_read\<close> that holds at least one key, with channel names
  listed once: the method returns the cells and the genes in sorted order and, for every
  channel in the order of the configuration, a matrix of shape (number of cells, number of
  genes) whose entry in row \<open>i\<close> and column \<open>j\<close> is the count stored for the
  \<open>j\<close>-th gene and the \<open>i\<close>-th cell in that channel (0 when there is none).
\<close>

lemma index_loop_sorted:
  assumes "finite A"
  defines "xs \<equiv> sorted_list_of_set A"
  shows "index_loop xs (Map.empty, []) = (fst (index_loop xs (Map.empty, [])), xs)"
    and "\<forall>i<length xs. fst (index_loop xs (Map.empty, [])) (xs ! i) = Some i"
    and "\<And>x. x \<in> A \<Longrightarrow> fst (index_loop xs (Map.empty, [])) x \<noteq> None"
proof -
  have d: "distinct xs" and st: "set xs = A" using assms(1) by (simp_all add: xs_def)
  show "index_loop xs (Map.empty, []) = (fst (index_loop xs (Map.empty, [])), xs)"
    using index_loop_snd[of xs Map.empty "[]"] by (simp add: prod_eq_iff)
  show "\<forall>i<length xs. fst (index_loop xs (Map.empty, [])) (xs ! i) = Some i"
    using index_loop_nth[OF d, of _ Map.empty "[]"] by simp
  show "fst (index_loop xs (Map.empty, [])) x \<noteq> None" if "x \<in> A" for x
    using that index_loop_dom[of xs x] st by simp
qed

lemma make_sparse_arrays_nonempty:
  assumes inv: "store_inv s" and ne: "counts s \<noteq> []" and dch: "distinct (channels s)"
  shows "\<exists>ms. fst (make_sparse_arrays s)
                 = Inr (ms, sorted_list_of_set (DGE_cells s), sorted_list_of_set (DGE_genes s)) \<and>
           map fst ms = channels s \<and>
           (\<forall>(ch, m)\<in>set ms.
              shape m = (card (DGE_cells s), card (DGE_genes s)) \<and>
              (\<forall>i<card (DGE_cells s). \<forall>j<card (DGE_genes s).
                 matrix_entry m i j
                   = count_of s (sorted_list_of_set (DGE_genes s) ! j,
                                 sorted_list_of_set (DGE_cells s) ! i) ch))"
proof -
  define obs where "obs = sorted_list_of_set (DGE_cells s)"
  define var where "var = sorted_list_of_set (DGE_genes s)"
  define ic where "ic = fst (index_loop obs (Map.empty, []))"
  define ig where "ig = fst (index_loop var (Map.empty, []))"
  let ?items = "counts s"
  let ?chs = "channels s"
  let ?cellf = "\<lambda>kd :: (string \<times> string) \<times> channel_dict. snd (fst kd)"
  let ?genef = "\<lambda>kd :: (string \<times> string) \<times> channel_dict. fst (fst kd)"
  have cells: "DGE_cells s = ?cellf ` set ?items" and genes: "DGE_genes s = ?genef ` set ?items"
    and dk: "distinct (map fst ?items)"
    using inv by (simp_all add: store_inv_def image_image)
  have finc: "finite (DGE_cells s)" and fing: "finite (DGE_genes s)"
    unfolding cells genes by simp_all
  have so: "set obs = DGE_cells s" "distinct obs" "length obs = card (DGE_cells s)"
    using finc by (simp_all add: obs_def)
  have sv: "set var = DGE_genes s" "distinct var" "length var = card (DGE_genes s)"
    using fing by (simp_all add: var_def)
  note io = index_loop_sorted[OF finc, folded obs_def, folded ic_def]
  note iv = index_loop_sorted[OF fing, folded var_def, folded ig_def]
  have present: "\<forall>kd\<in>set ?items. ic (?cellf kd) \<noteq> None \<and> ig (?genef kd) \<noteq> None"
    using io(3) iv(3) cells genes by auto
  define rows where "rows = map (\<lambda>kd. the (ic (?cellf kd))) ?items"
  define cols where "cols = map (\<lambda>kd. the (ig (?genef kd))) ?items"
  define cbc where "cbc = (\<lambda>ch. if ch \<in> set ?chs then map (\<lambda>kd. dict_get (snd kd) ch 0) ?items
                                else ([] :: nat list))"
  have "fst (items_loop ?chs ic ig ?items (\<lambda>_. [], [], [])) = Inr (cbc, rows, cols)"
    using items_loop_ok[OF dch present, of "\<lambda>_. []" "[]" "[]"]
    by (simp add: cbc_def rows_def cols_def cong: if_cong)
  then obtain items' where il:
    "items_loop ?chs ic ig ?items (\<lambda>_. [], [], []) = (Inr (cbc, rows, cols), items')"
    by (metis prod.collapse)
  define m where "m = (\<lambda>ch. \<lparr>shape = (Max (set rows) + 1, Max (set cols) + 1),
                               triplets = zip (zip rows cols) (cbc ch)\<rparr>)"
  have csr: "\<forall>ch\<in>set ?chs. csr_matrix (cbc ch) rows cols = Inr (m ch)"
    using ne by (simp add: csr_matrix_def m_def rows_def cols_def cbc_def)
  have ml: "matrices_loop ?chs cbc rows cols [] = Inr (map (\<lambda>ch. (ch, m ch)) ?chs)"
    using matrices_loop_ok[OF dch _ csr, of "[]"] by simp
  have res: "fst (make_sparse_arrays s) = Inr (map (\<lambda>ch. (ch, m ch)) ?chs, obs, var)"
    unfolding make_sparse_arrays_def obs_def[symmetric] var_def[symmetric]
    by (subst io(1), subst iv(1)) (simp add: il ml)
  have sh: "shape (m ch) = (card (DGE_cells s), card (DGE_genes s))" for ch
    using Max_index_rows[OF so(2) _ ne io(2), of ?cellf]
          Max_index_rows[OF sv(2) _ ne iv(2), of ?genef]
    by (simp add: m_def rows_def cols_def so sv cells[symmetric] genes[symmetric])
  have en: "matrix_entry (m ch) i j = count_of s (var ! j, obs ! i) ch"
    if ch: "ch \<in> set ?chs" and i: "i < card (DGE_cells s)" and j: "j < card (DGE_genes s)" for ch i j
  proof -
    have mc: "m ch = \<lparr>shape = (Max (set rows) + 1, Max (set cols) + 1),
                     triplets = zip (zip (map (\<lambda>kd. the (ic (?cellf kd))) ?items)
                                         (map (\<lambda>kd. the (ig (?genef kd))) ?items))
                                    (map (\<lambda>kd. dict_get (snd kd) ch 0) ?items)\<rparr>"
      using ch by (simp add: m_def rows_def cols_def cbc_def)
    have key: "(the (ic (?cellf kd)) = i \<and> the (ig (?genef kd)) = j) \<longleftrightarrow> fst kd = (var ! j, obs ! i)"
      if "kd \<in> set ?items" for kd
    proof -
      have c: "?cellf kd \<in> set obs" and g: "?genef kd \<in> set var"
        using that cells genes so(1) sv(1) by auto
      show ?thesis
        using index_eq_iff[OF so(2) io(2) c, of i] index_eq_iff[OF sv(2) iv(2) g, of j] i j
        by (auto simp: so(3) sv(3) prod_eq_iff)
    qed
    have "matrix_entry (m ch) i j
            = sum_list (map (\<lambda>kd. dict_get (snd kd) ch 0)
                 (filter (\<lambda>kd. the (ic (?cellf kd)) = i \<and> the (ig (?genef kd)) = j) ?items))"
      unfolding mc by (rule matrix_entry_zip)
    also have "filter (\<lambda>kd. the (ic (?cellf kd)) = i \<and> the (ig (?genef kd)) = j) ?items
                 = filter (\<lambda>kd. fst kd = (var ! j, obs ! i)) ?items"
      by (rule filter_cong[OF refl]) (rule key)
    also have "sum_list (map (\<lambda>kd. dict_get (snd kd) ch 0)
                 (filter (\<lambda>kd. fst kd = (var ! j, obs ! i)) ?items))
               = count_of s (var ! j, obs ! i) ch"
      unfolding count_of_def by (rule sum_filter_key[OF dk])
    finally show ?thesis .
  qed
  show ?thesis
    unfolding obs_def[symmetric] var_def[symmetric]
    by (rule exI[of _ "map (\<lambda>ch. (ch, m ch)) ?chs"]) (auto simp: res sh en comp_def)
qed

text \<open>
  Claim C5 at a store that never received a read: there is no index from which
  \<open>csr_matrix\<close> could infer a shape, so the method raises where the claim asks for
  matrices of shape (0, 0). This is the only kind of store built by \<open>add_read\<close> on which
  the claim fails, as the lemma for stores with a key shows.
\<close>

theorem make_sparse_arrays_empty_store:
  "fst (make_sparse_arrays (DGE_init default_channels None)) = Inl ValueError"
  by (simp add: make_sparse_arrays_def DGE_init_def load_list_def default_channels_def csr_matrix_def)

end
